theory Spec2Isabelle
  imports Main "HOL-Library.Word"
begin

section \<open>The host's byte arrays\<close>

text \<open>
  \<^verbatim>\<open>src/vs/base/common/buffer.ts\<close> wraps the host's \<^verbatim>\<open>Uint8Array\<close>. A \<^verbatim>\<open>Uint8Array\<close> is a
  view: it names an \<^verbatim>\<open>ArrayBuffer\<close>, a byte offset into it and a length, and two views may
  name the same \<^verbatim>\<open>ArrayBuffer\<close>. The store holds the \<^verbatim>\<open>ArrayBuffer\<close>s, each a fixed-length
  list of bytes, addressed by their position in the store; allocation appends one.
  A Node \<^verbatim>\<open>Buffer\<close> is a \<^verbatim>\<open>Uint8Array\<close> of a subclass, which \<open>is_buffer\<close> records.
\<close>

type_synonym byte = "8 word"

type_synonym store = "byte list list"

record Uint8Array =
  array_buffer :: nat
  byte_offset :: nat
  byte_length :: nat
  is_buffer :: bool

text \<open>
  What the host guarantees of every view it hands out: its \<^verbatim>\<open>ArrayBuffer\<close> exists and
  the view lies inside it.
\<close>

definition view_ok :: "store \<Rightarrow> Uint8Array \<Rightarrow> bool" where
  "view_ok st a \<longleftrightarrow>
     array_buffer a < length st \<and>
     byte_offset a + byte_length a \<le> length (st ! array_buffer a)"

text \<open>The bytes a view shows.\<close>

definition contents :: "store \<Rightarrow> Uint8Array \<Rightarrow> byte list" where
  "contents st a = take (byte_length a) (drop (byte_offset a) (st ! array_buffer a))"

text \<open>
  JavaScript numbers, as far as this module meets them: integers (every number below
  is an integer of magnitude under \<open>2 ^ 53\<close>, which a double holds exactly), \<^verbatim>\<open>NaN\<close>, and
  the value \<^verbatim>\<open>undefined\<close> that an out-of-range index read gives.
\<close>

datatype jsvalue = Undefined | NaN | Number int

fun js_times :: "jsvalue \<Rightarrow> jsvalue \<Rightarrow> jsvalue" where
  "js_times (Number a) (Number b) = Number (a * b)"
| "js_times _ _ = NaN"

fun js_plus :: "jsvalue \<Rightarrow> jsvalue \<Rightarrow> jsvalue" where
  "js_plus (Number a) (Number b) = Number (a + b)"
| "js_plus _ _ = NaN"

text \<open>\<^verbatim>\<open>ToUint8\<close>: what storing a number into a \<^verbatim>\<open>Uint8Array\<close> element keeps.\<close>

definition ToUint8 :: "int \<Rightarrow> byte" where
  "ToUint8 v = word_of_int v"

text \<open>\<^verbatim>\<open>value >>> n\<close>: \<^verbatim>\<open>ToUint32\<close> of the left operand, then a logical shift right.\<close>

definition ushr :: "int \<Rightarrow> nat \<Rightarrow> int" where
  "ushr v n = drop_bit n (take_bit 32 v)"

text \<open>
  \<^verbatim>\<open>source[offset]\<close>: the element, or \<^verbatim>\<open>undefined\<close> when the index is outside the view.
\<close>

definition get_index :: "store \<Rightarrow> Uint8Array \<Rightarrow> int \<Rightarrow> jsvalue" where
  "get_index st a i =
     (if 0 \<le> i \<and> i < int (byte_length a)
      then Number (uint (st ! array_buffer a ! (byte_offset a + nat i)))
      else Undefined)"

text \<open>
  \<^verbatim>\<open>destination[offset] = value\<close>: stores \<^verbatim>\<open>ToUint8(value)\<close>; a store outside the view is
  ignored.
\<close>

definition set_index :: "store \<Rightarrow> Uint8Array \<Rightarrow> int \<Rightarrow> int \<Rightarrow> store" where
  "set_index st a i v =
     (if 0 \<le> i \<and> i < int (byte_length a)
      then st[array_buffer a := (st ! array_buffer a)[byte_offset a + nat i := ToUint8 v]]
      else st)"

datatype error = RangeError

section \<open>The module's environment\<close>

text \<open>
  The three constants the module computes when it is loaded, and two facts of the host:
  the content of uncleared memory (\<open>uninit k i\<close> is the byte that happens to stand at
  position \<open>i\<close> of the \<open>k\<close>-th \<^verbatim>\<open>ArrayBuffer\<close>) and the largest length it allocates.
\<close>

record env =
  hasBuffer :: bool
  hasTextEncoder :: bool
  hasTextDecoder :: bool
  uninit :: "nat \<Rightarrow> nat \<Rightarrow> byte"
  maxLength :: nat

text \<open>
  The host's limit for the length of a byte array (\<^verbatim>\<open>buffer.constants.MAX_LENGTH\<close> in
  Node). It depends on the host and its version and is never below \<open>2 ^ 30 - 1\<close>, the
  limit of a 32-bit Node.
\<close>

definition kMaxLength :: "env \<Rightarrow> nat" where
  "kMaxLength e = max 0x3FFFFFFF (maxLength e)"

section \<open>Allocation\<close>

text \<open>
  \<^verbatim>\<open>new Uint8Array(byteLength)\<close>: a fresh zero-filled \<^verbatim>\<open>ArrayBuffer\<close> and a view of all of it;
  \<^verbatim>\<open>RangeError\<close> for a negative length or one above the host's limit. (That the host has
  run out of memory is not modelled.)
\<close>

definition new_Uint8Array :: "env \<Rightarrow> store \<Rightarrow> int \<Rightarrow> error + (Uint8Array \<times> store)" where
  "new_Uint8Array e st n =
     (if n < 0 \<or> int (kMaxLength e) < n then Inl RangeError
      else Inr (\<lparr>array_buffer = length st, byte_offset = 0, byte_length = nat n,
                 is_buffer = False\<rparr>,
                st @ [replicate (nat n) 0]))"

text \<open>
  Node cuts every \<^verbatim>\<open>Buffer\<close> of fewer than \<^verbatim>\<open>Buffer.poolSize >>> 1\<close> bytes out of a pool: one
  \<^verbatim>\<open>ArrayBuffer\<close> of \<^verbatim>\<open>Buffer.poolSize\<close> bytes that such buffers share, handed out from
  \<open>poolOffset\<close> upwards in steps that are multiples of 8. The bytes of the pool from
  \<open>poolOffset\<close> on are its unused part. When a request does not fit into the unused part,
  Node makes a new pool.
\<close>

record pool =
  allocPool :: nat
  poolOffset :: nat

definition poolSize :: nat where
  "poolSize = 8192"

text \<open>\<^verbatim>\<open>createUnsafeBuffer(size)\<close>: an \<^verbatim>\<open>ArrayBuffer\<close> of its own, not cleared.\<close>

definition createUnsafeBuffer :: "env \<Rightarrow> store \<Rightarrow> nat \<Rightarrow> Uint8Array \<times> store" where
  "createUnsafeBuffer e st size' =
     (\<lparr>array_buffer = length st, byte_offset = 0, byte_length = size', is_buffer = True\<rparr>,
      st @ [map (uninit e (length st)) [0..<size']])"

definition createPool :: "env \<Rightarrow> store \<Rightarrow> store \<times> pool" where
  "createPool e st =
     (snd (createUnsafeBuffer e st poolSize), \<lparr>allocPool = length st, poolOffset = 0\<rparr>)"

definition alignPool :: "pool \<Rightarrow> pool" where
  "alignPool h =
     (if poolOffset h mod 8 \<noteq> 0 then h\<lparr>poolOffset := (poolOffset h div 8 + 1) * 8\<rparr> else h)"

text \<open>
  \<^verbatim>\<open>poolSize - poolOffset\<close>: the length of the unused part. The pool is an \<^verbatim>\<open>ArrayBuffer\<close> of
  the store in every state the host reaches; for a pool that is not, the model has
  nothing unused, so that the next request makes a new pool.
\<close>

definition pool_room :: "pool \<Rightarrow> store \<Rightarrow> nat" where
  "pool_room h st =
     (if allocPool h < length st then length (st ! allocPool h) - poolOffset h else 0)"

text \<open>\<^verbatim>\<open>new FastBuffer()\<close>: an empty \<^verbatim>\<open>Buffer\<close> over an empty \<^verbatim>\<open>ArrayBuffer\<close> of its own.\<close>

definition FastBuffer_empty :: "store \<Rightarrow> Uint8Array \<times> store" where
  "FastBuffer_empty st =
     (\<lparr>array_buffer = length st, byte_offset = 0, byte_length = 0, is_buffer = True\<rparr>,
      st @ [[]])"

text \<open>
  The pool's next \<open>size\<close> bytes, from a new pool when the unused part is too short, and the
  pool after they are handed out.
\<close>

definition pool_take :: "env \<Rightarrow> pool \<Rightarrow> store \<Rightarrow> nat \<Rightarrow> Uint8Array \<times> store \<times> pool" where
  "pool_take e h st size' =
     (case (if size' > pool_room h st then createPool e st else (st, h)) of
        (st1, h1) \<Rightarrow>
          (\<lparr>array_buffer = allocPool h1, byte_offset = poolOffset h1, byte_length = size',
            is_buffer = True\<rparr>,
           st1, h1\<lparr>poolOffset := poolOffset h1 + size'\<rparr>))"

definition allocate :: "env \<Rightarrow> pool \<Rightarrow> store \<Rightarrow> nat \<Rightarrow> Uint8Array \<times> store \<times> pool" where
  "allocate e h st size' =
     (if size' \<le> 0 then (case FastBuffer_empty st of (b, st') \<Rightarrow> (b, st', h))
      else if size' < poolSize div 2
      then (case pool_take e h st size' of (b, st', h') \<Rightarrow> (b, st', alignPool h'))
      else (case createUnsafeBuffer e st size' of (b, st') \<Rightarrow> (b, st', h)))"

text \<open>
  \<^verbatim>\<open>Buffer.allocUnsafe(byteLength)\<close>: \<^verbatim>\<open>RangeError\<close> for a negative length or one above the
  host's limit, otherwise memory that is not cleared, from the pool when it is short.
\<close>

definition Buffer_allocUnsafe ::
  "env \<Rightarrow> pool \<Rightarrow> store \<Rightarrow> int \<Rightarrow> error + (Uint8Array \<times> store \<times> pool)" where
  "Buffer_allocUnsafe e h st n =
     (if n < 0 \<or> int (kMaxLength e) < n then Inl RangeError
      else Inr (allocate e h st (nat n)))"

text \<open>
  \<^verbatim>\<open>subarray(start, end)\<close>: a view of the same \<^verbatim>\<open>ArrayBuffer\<close>. A negative index counts from
  the end, every index is clamped to the view, and an end before the start gives the
  empty view. The subclass is kept.
\<close>

definition relative_index :: "int \<Rightarrow> nat \<Rightarrow> nat" where
  "relative_index k len =
     (if k < 0 then nat (max (int len + k) 0) else nat (min k (int len)))"

definition subarray :: "Uint8Array \<Rightarrow> int option \<Rightarrow> int option \<Rightarrow> Uint8Array" where
  "subarray a start end' =
     (let len = byte_length a;
          beginIndex = relative_index (case start of None \<Rightarrow> 0 | Some k \<Rightarrow> k) len;
          endIndex = (case end' of None \<Rightarrow> len | Some k \<Rightarrow> relative_index k len);
          newLength = nat (max (int endIndex - int beginIndex) 0)
      in a\<lparr>byte_offset := byte_offset a + beginIndex, byte_length := newLength\<rparr>)"

text \<open>
  \<^verbatim>\<open>target.set(source, offset)\<close> of the host: a missing offset is 0; a negative offset or
  a source that does not fit raises \<^verbatim>\<open>RangeError\<close>; otherwise the source's bytes, read
  before anything is written, replace the target's bytes from \<open>offset\<close> on.
\<close>

definition overwrite :: "byte list \<Rightarrow> nat \<Rightarrow> byte list \<Rightarrow> byte list" where
  "overwrite xs p bs = take p xs @ bs @ drop (p + length bs) xs"

definition Uint8Array_set ::
  "store \<Rightarrow> Uint8Array \<Rightarrow> Uint8Array \<Rightarrow> int option \<Rightarrow> error + store" where
  "Uint8Array_set st target source offset =
     (let targetOffset = (case offset of None \<Rightarrow> 0 | Some k \<Rightarrow> k) in
      if targetOffset < 0 then Inl RangeError
      else if int (byte_length source) + targetOffset > int (byte_length target)
      then Inl RangeError
      else Inr (st[array_buffer target :=
                  overwrite (st ! array_buffer target) (byte_offset target + nat targetOffset)
                    (contents st source)]))"

section \<open>The integer codecs\<close>

definition readUInt32BE :: "store \<Rightarrow> Uint8Array \<Rightarrow> int \<Rightarrow> jsvalue" where
  "readUInt32BE st source offset =
     js_plus
       (js_plus
         (js_plus
           (js_times (get_index st source offset) (Number (2 ^ 24)))
           (js_times (get_index st source (offset + 1)) (Number (2 ^ 16))))
         (js_times (get_index st source (offset + 2)) (Number (2 ^ 8))))
       (get_index st source (offset + 3))"

definition writeUInt32BE :: "store \<Rightarrow> Uint8Array \<Rightarrow> int \<Rightarrow> int \<Rightarrow> store" where
  "writeUInt32BE st destination value offset =
     (let st1 = set_index st destination (offset + 3) value;
          value1 = ushr value 8;
          st2 = set_index st1 destination (offset + 2) value1;
          value2 = ushr value1 8;
          st3 = set_index st2 destination (offset + 1) value2;
          value3 = ushr value2 8
      in set_index st3 destination offset value3)"

definition readUInt8 :: "store \<Rightarrow> Uint8Array \<Rightarrow> int \<Rightarrow> jsvalue" where
  "readUInt8 st source offset = get_index st source offset"

definition writeUInt8 :: "store \<Rightarrow> Uint8Array \<Rightarrow> int \<Rightarrow> int \<Rightarrow> store" where
  "writeUInt8 st destination value offset = set_index st destination offset value"

section \<open>VSBuffer\<close>

record VSBuffer =
  buffer :: Uint8Array
  byteLength :: nat

text \<open>The private constructor.\<close>

definition VSBuffer_new :: "Uint8Array \<Rightarrow> VSBuffer" where
  "VSBuffer_new a = \<lparr>buffer = a, byteLength = byte_length a\<rparr>"

text \<open>\<open>alloc\<close>. Only the \<^verbatim>\<open>Buffer\<close> branch touches the pool.\<close>

definition VSBuffer_alloc ::
  "env \<Rightarrow> pool \<Rightarrow> store \<Rightarrow> int \<Rightarrow> error + (VSBuffer \<times> store \<times> pool)" where
  "VSBuffer_alloc e h st n =
     (if hasBuffer e
      then (case Buffer_allocUnsafe e h st n of
              Inl err \<Rightarrow> Inl err
            | Inr (a, st', h') \<Rightarrow> Inr (VSBuffer_new a, st', h'))
      else (case new_Uint8Array e st n of
              Inl err \<Rightarrow> Inl err
            | Inr (a, st') \<Rightarrow> Inr (VSBuffer_new a, st', h)))"

text \<open>
  \<^verbatim>\<open>Buffer.from(actual.buffer, actual.byteOffset, actual.byteLength)\<close> is a \<^verbatim>\<open>Buffer\<close> over the
  same \<^verbatim>\<open>ArrayBuffer\<close>, offset and length.
\<close>

definition VSBuffer_wrap :: "env \<Rightarrow> Uint8Array \<Rightarrow> VSBuffer" where
  "VSBuffer_wrap e actual =
     (if hasBuffer e \<and> \<not> is_buffer actual
      then VSBuffer_new \<lparr>array_buffer = array_buffer actual, byte_offset = byte_offset actual,
                         byte_length = byte_length actual, is_buffer = True\<rparr>
      else VSBuffer_new actual)"

definition VSBuffer_slice :: "VSBuffer \<Rightarrow> int option \<Rightarrow> int option \<Rightarrow> VSBuffer" where
  "VSBuffer_slice b start end' = VSBuffer_new (subarray (buffer b) start end')"

definition VSBuffer_set :: "store \<Rightarrow> VSBuffer \<Rightarrow> VSBuffer \<Rightarrow> int option \<Rightarrow> error + store" where
  "VSBuffer_set st b array offset = Uint8Array_set st (buffer b) (buffer array) offset"

definition VSBuffer_readUInt32BE :: "store \<Rightarrow> VSBuffer \<Rightarrow> int \<Rightarrow> jsvalue" where
  "VSBuffer_readUInt32BE st b offset = readUInt32BE st (buffer b) offset"

definition VSBuffer_writeUInt32BE :: "store \<Rightarrow> VSBuffer \<Rightarrow> int \<Rightarrow> int \<Rightarrow> store" where
  "VSBuffer_writeUInt32BE st b value offset = writeUInt32BE st (buffer b) value offset"

definition VSBuffer_readUInt8 :: "store \<Rightarrow> VSBuffer \<Rightarrow> int \<Rightarrow> jsvalue" where
  "VSBuffer_readUInt8 st b offset = readUInt8 st (buffer b) offset"

definition VSBuffer_writeUInt8 :: "store \<Rightarrow> VSBuffer \<Rightarrow> int \<Rightarrow> int \<Rightarrow> store" where
  "VSBuffer_writeUInt8 st b value offset = writeUInt8 st (buffer b) value offset"

text \<open>
  \<^verbatim>\<open>concat\<close>: the first loop sums the lengths when \<^verbatim>\<open>totalLength\<close> is missing, the second
  copies each element at the running offset. An exception of \<^verbatim>\<open>set\<close> leaves the loop.
\<close>

fun concat_total :: "VSBuffer list \<Rightarrow> int \<Rightarrow> int" where
  "concat_total [] totalLength = totalLength"
| "concat_total (b # buffers) totalLength =
     concat_total buffers (totalLength + int (byteLength b))"

fun concat_copy :: "store \<Rightarrow> VSBuffer \<Rightarrow> VSBuffer list \<Rightarrow> int \<Rightarrow> error + store" where
  "concat_copy st ret [] offset = Inr st"
| "concat_copy st ret (element # buffers) offset =
     (case VSBuffer_set st ret element (Some offset) of
        Inl err \<Rightarrow> Inl err
      | Inr st' \<Rightarrow> concat_copy st' ret buffers (offset + int (byteLength element)))"

definition VSBuffer_concat ::
  "env \<Rightarrow> pool \<Rightarrow> store \<Rightarrow> VSBuffer list \<Rightarrow> int option \<Rightarrow>
   error + (VSBuffer \<times> store \<times> pool)" where
  "VSBuffer_concat e h st buffers totalLength =
     (let total = (case totalLength of None \<Rightarrow> concat_total buffers 0 | Some t \<Rightarrow> t) in
      case VSBuffer_alloc e h st total of
        Inl err \<Rightarrow> Inl err
      | Inr (ret, st1, h1) \<Rightarrow>
          (case concat_copy st1 ret buffers 0 of
             Inl err \<Rightarrow> Inl err
           | Inr st2 \<Rightarrow> Inr (ret, st2, h1)))"

text \<open>
  The handle's invariant, and what the theorems ask of a handle in a store: the
  invariant and the host's guarantee for its view.
\<close>

definition VSBuffer_inv :: "VSBuffer \<Rightarrow> bool" where
  "VSBuffer_inv b \<longleftrightarrow> byteLength b = byte_length (buffer b)"

definition VSBuffer_ok :: "store \<Rightarrow> VSBuffer \<Rightarrow> bool" where
  "VSBuffer_ok st b \<longleftrightarrow> VSBuffer_inv b \<and> view_ok st (buffer b)"

text \<open>
  A view that shows no byte of the pool's unused part. Every \<^verbatim>\<open>Buffer\<close> the host hands out
  is one, and so is every view of a part of it; a view made over the pool's
  \<^verbatim>\<open>ArrayBuffer\<close> by hand need not be.
\<close>

definition off_pool :: "pool \<Rightarrow> Uint8Array \<Rightarrow> bool" where
  "off_pool h a \<longleftrightarrow>
     array_buffer a \<noteq> allocPool h \<or> byte_offset a + byte_length a \<le> poolOffset h"

section \<open>Text\<close>

text \<open>
  A JavaScript string is a sequence of 16-bit code units. A code unit from \<open>0xD800\<close> to
  \<open>0xDBFF\<close> followed by one from \<open>0xDC00\<close> to \<open>0xDFFF\<close> is a surrogate pair and stands for
  one code point from \<open>0x10000\<close> on; a surrogate outside such a pair is unpaired.
\<close>

type_synonym jsstring = "16 word list"

definition leading_surrogate :: "16 word \<Rightarrow> bool" where
  "leading_surrogate u \<longleftrightarrow> 0xD800 \<le> u \<and> u \<le> 0xDBFF"

definition trailing_surrogate :: "16 word \<Rightarrow> bool" where
  "trailing_surrogate u \<longleftrightarrow> 0xDC00 \<le> u \<and> u \<le> 0xDFFF"

definition lone_unit :: "16 word \<Rightarrow> nat" where
  "lone_unit u = (if leading_surrogate u \<or> trailing_surrogate u then 0xFFFD else unat u)"

text \<open>
  The scalar values a host encoder reads from a string: a surrogate pair is one code
  point, and an unpaired surrogate, which UTF-8 cannot express, is read as \<open>U+FFFD\<close>.
\<close>

fun scalar_values :: "jsstring \<Rightarrow> nat list" where
  "scalar_values [] = []"
| "scalar_values [u] = [lone_unit u]"
| "scalar_values (u # v # us) =
     (if leading_surrogate u \<and> trailing_surrogate v
      then (0x10000 + (unat u - 0xD800) * 0x400 + (unat v - 0xDC00)) # scalar_values us
      else lone_unit u # scalar_values (v # us))"

text \<open>The UTF-8 bytes of a scalar value: one to four, by its size.\<close>

definition utf8_bytes :: "nat \<Rightarrow> byte list" where
  "utf8_bytes c =
     (if c < 0x80 then [of_nat c]
      else if c < 0x800 then [of_nat (0xC0 + c div 0x40), of_nat (0x80 + c mod 0x40)]
      else if c < 0x10000
      then [of_nat (0xE0 + c div 0x1000), of_nat (0x80 + c div 0x40 mod 0x40),
            of_nat (0x80 + c mod 0x40)]
      else [of_nat (0xF0 + c div 0x40000), of_nat (0x80 + c div 0x1000 mod 0x40),
            of_nat (0x80 + c div 0x40 mod 0x40), of_nat (0x80 + c mod 0x40)])"

definition utf8_encode :: "jsstring \<Rightarrow> byte list" where
  "utf8_encode s = concat (map utf8_bytes (scalar_values s))"

text \<open>
  The host's UTF-8 decoder, a byte at a time: the lead byte fixes how many continuation
  bytes are needed and the range the next one must lie in; a byte that cannot continue
  the sequence ends it with \<open>U+FFFD\<close> and is read again as the start of the next one; an
  input that ends inside a sequence gives a last \<open>U+FFFD\<close>.
\<close>

record utf8_decoder =
  code_point :: nat
  bytes_seen :: nat
  bytes_needed :: nat
  lower_boundary :: nat
  upper_boundary :: nat

definition utf8_start :: utf8_decoder where
  "utf8_start = \<lparr>code_point = 0, bytes_seen = 0, bytes_needed = 0,
                  lower_boundary = 0x80, upper_boundary = 0xBF\<rparr>"

function utf8_run :: "utf8_decoder \<Rightarrow> nat list \<Rightarrow> nat list" where
  "utf8_run d [] = (if bytes_needed d \<noteq> 0 then [0xFFFD] else [])"
| "utf8_run d (b # bs) =
     (if bytes_needed d = 0 then
        (if b \<le> 0x7F then b # utf8_run d bs
         else if 0xC2 \<le> b \<and> b \<le> 0xDF
         then utf8_run (d\<lparr>bytes_needed := 1, code_point := b mod 0x20\<rparr>) bs
         else if 0xE0 \<le> b \<and> b \<le> 0xEF
         then utf8_run (d\<lparr>lower_boundary := (if b = 0xE0 then 0xA0 else lower_boundary d),
                          upper_boundary := (if b = 0xED then 0x9F else upper_boundary d),
                          bytes_needed := 2, code_point := b mod 0x10\<rparr>) bs
         else if 0xF0 \<le> b \<and> b \<le> 0xF4
         then utf8_run (d\<lparr>lower_boundary := (if b = 0xF0 then 0x90 else lower_boundary d),
                          upper_boundary := (if b = 0xF4 then 0x8F else upper_boundary d),
                          bytes_needed := 3, code_point := b mod 0x08\<rparr>) bs
         else 0xFFFD # utf8_run d bs)
      else if b < lower_boundary d \<or> upper_boundary d < b
      then 0xFFFD # utf8_run utf8_start (b # bs)
      else (let d' = d\<lparr>lower_boundary := 0x80, upper_boundary := 0xBF,
                        code_point := code_point d * 0x40 + b mod 0x40,
                        bytes_seen := bytes_seen d + 1\<rparr>
            in if bytes_seen d' \<noteq> bytes_needed d' then utf8_run d' bs
               else code_point d' # utf8_run utf8_start bs))"
  by pat_completeness auto
termination
  by (relation "measure (\<lambda>(d, bs). 2 * length bs + (if bytes_needed d = 0 then 0 else 1))")
    (auto simp: utf8_start_def)

definition utf8_code_points :: "byte list \<Rightarrow> nat list" where
  "utf8_code_points bytes = utf8_run utf8_start (map unat bytes)"

text \<open>The code units of a code point: itself, or a surrogate pair from \<open>0x10000\<close> on.\<close>

definition utf16_units :: "nat \<Rightarrow> jsstring" where
  "utf16_units c =
     (if c < 0x10000 then [of_nat c]
      else [of_nat (0xD800 + (c - 0x10000) div 0x400),
            of_nat (0xDC00 + (c - 0x10000) mod 0x400)])"

definition utf8_decode :: "byte list \<Rightarrow> jsstring" where
  "utf8_decode bytes = concat (map utf16_units (utf8_code_points bytes))"

text \<open>
  \<^verbatim>\<open>Buffer.from(source)\<close>: a \<^verbatim>\<open>Buffer\<close> of the UTF-8 bytes of the string. The empty string
  gives \<^verbatim>\<open>new FastBuffer()\<close>; an encoding of fewer than \<^verbatim>\<open>Buffer.poolSize >>> 1\<close> bytes is
  written into the pool; a longer one gets an \<^verbatim>\<open>ArrayBuffer\<close> of its own.
\<close>

definition Buffer_from ::
  "env \<Rightarrow> pool \<Rightarrow> store \<Rightarrow> jsstring \<Rightarrow> Uint8Array \<times> store \<times> pool" where
  "Buffer_from e h st source =
     (if source = [] then (case FastBuffer_empty st of (b, st') \<Rightarrow> (b, st', h))
      else if length (utf8_encode source) \<ge> poolSize div 2
      then (\<lparr>array_buffer = length st, byte_offset = 0,
             byte_length = length (utf8_encode source), is_buffer = True\<rparr>,
            st @ [utf8_encode source], h)
      else (case pool_take e h st (length (utf8_encode source)) of
              (b, st', h') \<Rightarrow>
                (b,
                 st'[array_buffer b :=
                       overwrite (st' ! array_buffer b) (byte_offset b) (utf8_encode source)],
                 alignPool h')))"

text \<open>
  \<^verbatim>\<open>textEncoder.encode(source)\<close>: the UTF-8 bytes of the string in a plain \<^verbatim>\<open>Uint8Array\<close> over
  an \<^verbatim>\<open>ArrayBuffer\<close> of its own.
\<close>

definition TextEncoder_encode :: "store \<Rightarrow> jsstring \<Rightarrow> Uint8Array \<times> store" where
  "TextEncoder_encode st source =
     (\<lparr>array_buffer = length st, byte_offset = 0,
       byte_length = length (utf8_encode source), is_buffer = False\<rparr>,
      st @ [utf8_encode source])"

text \<open>
  Modelled from the spec: \<^verbatim>\<open>strings.encodeUTF8\<close> of \<^verbatim>\<open>vs/base/common/strings\<close>, which is
  not among the sources. The specification calls it a pure manual UTF-8 encoder whose
  output is byte-identical to that of the two host encoders.
\<close>

definition encodeUTF8 :: "store \<Rightarrow> jsstring \<Rightarrow> Uint8Array \<times> store" where
  "encodeUTF8 st str =
     (\<lparr>array_buffer = length st, byte_offset = 0,
       byte_length = length (utf8_encode str), is_buffer = False\<rparr>,
      st @ [utf8_encode str])"

text \<open>
  \<^verbatim>\<open>this.buffer.toString()\<close>: on a \<^verbatim>\<open>Buffer\<close> the UTF-8 decoding of its bytes; on a plain
  \<^verbatim>\<open>Uint8Array\<close> the elements in decimal, joined by commas.
\<close>

fun decimal :: "nat \<Rightarrow> jsstring" where
  "decimal n =
     (if n < 10 then [of_nat (48 + n)] else decimal (n div 10) @ [of_nat (48 + n mod 10)])"

declare decimal.simps [simp del]

fun join :: "jsstring \<Rightarrow> jsstring list \<Rightarrow> jsstring" where
  "join sep [] = []"
| "join sep [x] = x"
| "join sep (x # y # ys) = x @ sep @ join sep (y # ys)"

definition Uint8Array_toString :: "store \<Rightarrow> Uint8Array \<Rightarrow> jsstring" where
  "Uint8Array_toString st a =
     (if is_buffer a then utf8_decode (contents st a)
      else join [0x2C] (map (\<lambda>x. decimal (unat x)) (contents st a)))"

text \<open>
  \<^verbatim>\<open>textDecoder.decode(this.buffer)\<close>: a decoder made by \<^verbatim>\<open>new TextDecoder()\<close> decodes UTF-8
  and leaves a leading byte order mark \<open>U+FEFF\<close> out of its result.
\<close>

definition TextDecoder_decode :: "store \<Rightarrow> Uint8Array \<Rightarrow> jsstring" where
  "TextDecoder_decode st a =
     concat (map utf16_units
       (case utf8_code_points (contents st a) of
          [] \<Rightarrow> []
        | c # cs \<Rightarrow> if c = 0xFEFF then cs else c # cs))"

text \<open>
  Modelled from the spec: \<^verbatim>\<open>strings.decodeUTF8\<close> of \<^verbatim>\<open>vs/base/common/strings\<close>, which is
  not among the sources. The specification asks of it the decoding of the native
  path: UTF-8, with the replacement character for bytes that are not UTF-8.
\<close>

definition decodeUTF8 :: "store \<Rightarrow> Uint8Array \<Rightarrow> jsstring" where
  "decodeUTF8 st a = utf8_decode (contents st a)"

text \<open>
  \<open>fromString\<close> and \<open>toString\<close>. The module keeps the \<^verbatim>\<open>TextEncoder\<close> and the \<^verbatim>\<open>TextDecoder\<close> it
  makes on first use; one call of \<^verbatim>\<open>encode\<close> or \<^verbatim>\<open>decode\<close> leaves nothing behind in them,
  so the model does not carry them.
\<close>

definition VSBuffer_fromString ::
  "env \<Rightarrow> pool \<Rightarrow> store \<Rightarrow> jsstring \<Rightarrow> VSBuffer \<times> store \<times> pool" where
  "VSBuffer_fromString e h st source =
     (if hasBuffer e
      then (case Buffer_from e h st source of (a, st', h') \<Rightarrow> (VSBuffer_new a, st', h'))
      else if hasTextEncoder e
      then (case TextEncoder_encode st source of (a, st') \<Rightarrow> (VSBuffer_new a, st', h))
      else (case encodeUTF8 st source of (a, st') \<Rightarrow> (VSBuffer_new a, st', h)))"

definition VSBuffer_toString :: "env \<Rightarrow> store \<Rightarrow> VSBuffer \<Rightarrow> jsstring" where
  "VSBuffer_toString e st b =
     (if hasBuffer e then Uint8Array_toString st (buffer b)
      else if hasTextDecoder e then TextDecoder_decode st (buffer b)
      else decodeUTF8 st (buffer b))"

text \<open>A string every surrogate of which stands in a pair.\<close>

fun well_formed :: "jsstring \<Rightarrow> bool" where
  "well_formed [] = True"
| "well_formed [u] = (\<not> leading_surrogate u \<and> \<not> trailing_surrogate u)"
| "well_formed (u # v # us) =
     (if leading_surrogate u then trailing_surrogate v \<and> well_formed us
      else \<not> trailing_surrogate u \<and> well_formed (v # us))"

text \<open>
  The three environments the module can find itself in: Node (\<^verbatim>\<open>Buffer\<close> exists), a
  browser (no \<^verbatim>\<open>Buffer\<close>, but \<^verbatim>\<open>TextEncoder\<close> and \<^verbatim>\<open>TextDecoder\<close>), and a host with neither.
\<close>

definition node_env :: env where
  "node_env = \<lparr>hasBuffer = True, hasTextEncoder = True, hasTextDecoder = True,
                uninit = (\<lambda>k i. 0xAA), maxLength = 0x7FFFFFFF\<rparr>"

definition browser_env :: env where
  "browser_env = \<lparr>hasBuffer = False, hasTextEncoder = True, hasTextDecoder = True,
                   uninit = (\<lambda>k i. 0xAA), maxLength = 0x7FFFFFFF\<rparr>"

definition bare_env :: env where
  "bare_env = \<lparr>hasBuffer = False, hasTextEncoder = False, hasTextDecoder = False,
                uninit = (\<lambda>k i. 0xAA), maxLength = 0x7FFFFFFF\<rparr>"

text \<open>A Unicode scalar value: a code point that is not a surrogate.\<close>

definition scalar :: "nat \<Rightarrow> bool" where
  "scalar c \<longleftrightarrow> c < 0x110000 \<and> \<not> (0xD800 \<le> c \<and> c \<le> 0xDFFF)"

section \<open>Streams\<close>

text \<open>
  A push-based stream, seen from its listeners, is the sequence of signals it delivers:
  chunks, an end signal, an error signal.
\<close>

datatype ('a, 'e) stream_event = Data 'a | End | Error 'e

datatype ('r, 'e) promise = Pending | Resolved 'r | Rejected 'e

text \<open>A promise is settled once; a later \<^verbatim>\<open>resolve\<close> or \<^verbatim>\<open>reject\<close> changes nothing.\<close>

fun settle :: "('r, 'e) promise \<Rightarrow> ('r, 'e) promise \<Rightarrow> ('r, 'e) promise" where
  "settle Pending p = p"
| "settle q p = q"

text \<open>
  Modelled from the spec: \<^verbatim>\<open>streams.consumeStream\<close> of \<^verbatim>\<open>vs/base/common/stream\<close>, which is
  not among the sources. The specification has it drain the stream until its end,
  collect the delivered chunks, resolve with the reducer's value of them at the end
  signal and reject at an error signal.
\<close>

fun consume_event ::
  "('a list \<Rightarrow> 'r) \<Rightarrow> 'a list \<times> ('r, 'e) promise \<Rightarrow> ('a, 'e) stream_event \<Rightarrow>
   'a list \<times> ('r, 'e) promise" where
  "consume_event reducer (chunks, p) (Data d) = (chunks @ [d], p)"
| "consume_event reducer (chunks, p) (Error err) = (chunks, settle p (Rejected err))"
| "consume_event reducer (chunks, p) End = (chunks, settle p (Resolved (reducer chunks)))"

definition consumeStream ::
  "('a, 'e) stream_event list \<Rightarrow> ('a list \<Rightarrow> 'r) \<Rightarrow> ('r, 'e) promise" where
  "consumeStream stream reducer = snd (foldl (consume_event reducer) ([], Pending) stream)"

text \<open>
  \<open>streamToBuffer\<close>: the reducer is \<open>concat\<close> without a total length, run on the store and
  the pool as they are when the stream ends.
\<close>

definition streamToBuffer ::
  "env \<Rightarrow> pool \<Rightarrow> store \<Rightarrow> (VSBuffer, 'e) stream_event list \<Rightarrow>
   (error + VSBuffer \<times> store \<times> pool, 'e) promise" where
  "streamToBuffer e h st stream =
     consumeStream stream (\<lambda>chunks. VSBuffer_concat e h st chunks None)"

section \<open>Element reads and writes\<close>

lemma length_set_index [simp]: "length (set_index st a i v) = length st"
  by (simp add: set_index_def)

lemma length_nth_set_index [simp]: "length (set_index st a i v ! k) = length (st ! k)"
  by (cases "k < length st"; cases "k = array_buffer a")
    (simp_all add: set_index_def list_update_beyond)

lemma view_ok_set_index [simp]: "view_ok (set_index st a i v) a' = view_ok st a'"
  by (simp add: view_ok_def)

lemma map_length_set_index: "map length (set_index st a i v) = map length st"
  by (simp add: list_eq_iff_nth_eq)

text \<open>
  A read after a write, through any two views: the written byte shows where the two
  indices name the same byte of the same \<^verbatim>\<open>ArrayBuffer\<close>, and nowhere else.
\<close>

lemma get_set_index:
  assumes "view_ok st a" "view_ok st a'" "0 \<le> i" "i < int (byte_length a)"
  shows "get_index (set_index st a i v) a' j =
    (if 0 \<le> j \<and> j < int (byte_length a') \<and> array_buffer a' = array_buffer a \<and>
        byte_offset a' + nat j = byte_offset a + nat i
     then Number (uint (ToUint8 v)) else get_index st a' j)"
  using assms by (auto simp: view_ok_def set_index_def get_index_def nth_list_update)

lemma uint_ToUint8: "uint (ToUint8 v) = v mod 256"
  by (simp add: ToUint8_def uint_word_of_int)

lemma length_contents: "view_ok st a \<Longrightarrow> length (contents st a) = byte_length a"
  by (auto simp: contents_def view_ok_def)

lemma contents_nth:
  "view_ok st a \<Longrightarrow> k < byte_length a \<Longrightarrow>
   contents st a ! k = st ! array_buffer a ! (byte_offset a + k)"
  by (simp add: contents_def view_ok_def)

lemma get_index_contents:
  "view_ok st a \<Longrightarrow> get_index st a i =
     (if 0 \<le> i \<and> i < int (byte_length a) then Number (uint (contents st a ! nat i))
      else Undefined)"
  by (auto simp: get_index_def contents_nth nat_less_iff)

lemma contents_set_index:
  assumes "view_ok st a" "0 \<le> i" "i < int (byte_length a)"
  shows "contents (set_index st a i v) a = (contents st a)[nat i := ToUint8 v]"
proof (rule nth_equalityI)
  show "length (contents (set_index st a i v) a) = length ((contents st a)[nat i := ToUint8 v])"
    using assms by (simp add: length_contents)
next
  fix k assume "k < length (contents (set_index st a i v) a)"
  then have k: "k < byte_length a" using assms by (simp add: length_contents)
  then show "contents (set_index st a i v) a ! k = (contents st a)[nat i := ToUint8 v] ! k"
    using assms
    by (auto simp: contents_nth length_contents nth_list_update set_index_def view_ok_def)
qed

section \<open>The 32-bit codec\<close>

lemma ushr_8: "ushr v 8 = (v mod 2 ^ 32) div 256"
  by (simp add: ushr_def take_bit_eq_mod drop_bit_eq_div)

text \<open>The four bytes that \<open>writeUInt32BE\<close> stores, weighted as \<open>readUInt32BE\<close> weights them.\<close>

lemma be_bytes:
  "(ushr (ushr (ushr v 8) 8) 8 mod 256) * 2 ^ 24 + (ushr (ushr v 8) 8 mod 256) * 2 ^ 16 +
   (ushr v 8 mod 256) * 2 ^ 8 + v mod 256 = v mod 2 ^ 32"
proof -
  define w where "w = v mod 2 ^ 32"
  have w: "0 \<le> w" "w < 2 ^ 32" by (simp_all add: w_def)
  have b3: "v mod 256 = w mod 256"
    unfolding w_def by (simp add: mod_mod_cancel)
  define v1 where "v1 = w div 256"
  have v1: "0 \<le> v1" "v1 < 2 ^ 24" using w by (simp_all add: v1_def)
  have u1: "ushr v 8 = v1" by (simp add: ushr_8 v1_def w_def)
  define v2 where "v2 = v1 div 256"
  have v2: "0 \<le> v2" "v2 < 2 ^ 16" using v1 by (simp_all add: v2_def)
  have u2: "ushr v1 8 = v2" using v1 by (simp add: ushr_8 v2_def)
  define v3 where "v3 = v2 div 256"
  have v3: "0 \<le> v3" "v3 < 2 ^ 8" using v2 by (simp_all add: v3_def)
  have u3: "ushr v2 8 = v3" using v2 by (simp add: ushr_8 v3_def)
  have "w = v1 * 256 + w mod 256" "v1 = v2 * 256 + v1 mod 256"
    "v2 = v3 * 256 + v2 mod 256" "v3 mod 256 = v3"
    using v3 by (simp_all add: v1_def v2_def v3_def)
  then show ?thesis
    unfolding u1 u2 u3 b3 w_def[symmetric] by simp
qed

lemma read_write_UInt32BE:
  assumes "view_ok st a" "0 \<le> offset" "offset + 4 \<le> int (byte_length a)"
  shows "readUInt32BE (writeUInt32BE st a v offset) a offset = Number (v mod 2 ^ 32)"
proof -
  have "readUInt32BE (writeUInt32BE st a v offset) a offset =
     Number ((ushr (ushr (ushr v 8) 8) 8 mod 256) * 2 ^ 24 +
             (ushr (ushr v 8) 8 mod 256) * 2 ^ 16 + (ushr v 8 mod 256) * 2 ^ 8 + v mod 256)"
    using assms
    by (simp add: readUInt32BE_def writeUInt32BE_def Let_def get_set_index uint_ToUint8)
  then show ?thesis by (simp only: be_bytes)
qed

lemma contents_writeUInt32BE:
  assumes "view_ok st a" "0 \<le> offset" "offset + 4 \<le> int (byte_length a)"
  shows "contents (writeUInt32BE st a v offset) a =
    (contents st a)[nat offset + 3 := ToUint8 v, nat offset + 2 := ToUint8 (ushr v 8),
       nat offset + 1 := ToUint8 (ushr (ushr v 8) 8),
       nat offset := ToUint8 (ushr (ushr (ushr v 8) 8) 8)]"
  using assms
  by (simp add: writeUInt32BE_def Let_def contents_set_index nat_add_distrib)

text \<open>
  C3. A value \<open>v\<close> with \<open>0 \<le> v < 2 ^ 32\<close>, written at offset 0 of a buffer of at least
  four bytes by \<open>writeUInt32BE\<close>, is what \<open>readUInt32BE\<close> reads back at offset 0.
\<close>

theorem writeUInt32BE_readUInt32BE_roundtrip:
  assumes "VSBuffer_ok st b" and "4 \<le> byteLength b" and "0 \<le> v" and "v < 2 ^ 32"
  shows "VSBuffer_readUInt32BE (VSBuffer_writeUInt32BE st b v 0) b 0 = Number v"
proof -
  have "view_ok st (buffer b)" "(0::int) + 4 \<le> int (byte_length (buffer b))"
    using assms by (simp_all add: VSBuffer_ok_def VSBuffer_inv_def)
  then have "readUInt32BE (writeUInt32BE st (buffer b) v 0) (buffer b) 0 = Number (v mod 2 ^ 32)"
    by (intro read_write_UInt32BE) simp_all
  then show ?thesis
    using assms by (simp add: VSBuffer_readUInt32BE_def VSBuffer_writeUInt32BE_def)
qed

theorem writeUInt32BE_readUInt32BE_roundtrip_witness:
  "VSBuffer_ok [[0, 0, 0, 0, 0]]
     \<lparr>buffer = \<lparr>array_buffer = 0, byte_offset = 1, byte_length = 4, is_buffer = False\<rparr>,
      byteLength = 4\<rparr> \<and>
   VSBuffer_readUInt32BE
     (VSBuffer_writeUInt32BE [[0, 0, 0, 0, 0]]
        \<lparr>buffer = \<lparr>array_buffer = 0, byte_offset = 1, byte_length = 4, is_buffer = False\<rparr>,
         byteLength = 4\<rparr> 3735928559 0)
     \<lparr>buffer = \<lparr>array_buffer = 0, byte_offset = 1, byte_length = 4, is_buffer = False\<rparr>,
      byteLength = 4\<rparr> 0 = Number 3735928559"
  using writeUInt32BE_readUInt32BE_roundtrip [of "[[0, 0, 0, 0, 0]]"
      "\<lparr>buffer = \<lparr>array_buffer = 0, byte_offset = 1, byte_length = 4, is_buffer = False\<rparr>,
        byteLength = 4\<rparr>" 3735928559]
  by (simp add: VSBuffer_ok_def VSBuffer_inv_def view_ok_def)

section \<open>What an allocation gives\<close>

lemma pool_take_cases:
  assumes "0 < n" "n < poolSize div 2" "pool_take e h st n = (a, st1, h1)"
  shows "byte_length a = n \<and> is_buffer a \<and>
    ((st1 = st \<and> array_buffer a = allocPool h \<and> byte_offset a = poolOffset h \<and>
      allocPool h < length st \<and> poolOffset h + n \<le> length (st ! allocPool h)) \<or>
     (\<exists>x. st1 = st @ [x] \<and> array_buffer a = length st \<and> byte_offset a = 0 \<and>
        n \<le> length x))"
proof (cases "n > pool_room h st")
  case True
  with assms show ?thesis
    by (auto simp: pool_take_def createPool_def createUnsafeBuffer_def poolSize_def)
next
  case False
  with assms(1) have room: "allocPool h < length st"
    "poolOffset h + n \<le> length (st ! allocPool h)"
    by (auto simp: pool_room_def split: if_splits)
  from False assms(3) have "a = \<lparr>array_buffer = allocPool h, byte_offset = poolOffset h,
      byte_length = n, is_buffer = True\<rparr>" "st1 = st"
    by (simp_all add: pool_take_def)
  with room show ?thesis by simp
qed

lemma allocate_cases:
  assumes "allocate e h st n = (a, st1, h1)"
  shows "byte_length a = n \<and> is_buffer a \<and>
    ((st1 = st \<and> array_buffer a = allocPool h \<and> byte_offset a = poolOffset h \<and>
      allocPool h < length st \<and> poolOffset h + n \<le> length (st ! allocPool h)) \<or>
     (\<exists>x. st1 = st @ [x] \<and> array_buffer a = length st \<and> byte_offset a = 0 \<and>
        n \<le> length x))"
proof -
  consider "n = 0" | "0 < n" "n < poolSize div 2" | "poolSize div 2 \<le> n"
    by (cases "n = 0"; cases "n < poolSize div 2") auto
  then show ?thesis
  proof cases
    case 1
    with assms show ?thesis by (auto simp: allocate_def FastBuffer_empty_def)
  next
    case 2
    obtain a' st' h' where pt: "pool_take e h st n = (a', st', h')"
      by (cases "pool_take e h st n") auto
    with 2 assms have "a = a'" "st1 = st'" by (simp_all add: allocate_def)
    with pool_take_cases [OF 2 pt] show ?thesis by simp
  next
    case 3
    then have "\<not> n \<le> 0" "\<not> n < poolSize div 2" by (simp_all add: poolSize_def)
    with assms show ?thesis by (auto simp: allocate_def createUnsafeBuffer_def)
  qed
qed

text \<open>
  \<open>alloc\<close> returns for every length from 0 to the host's limit. Its buffer has that
  length and lies either in the pool's unused part, in the store as it was, or at the
  start of an \<^verbatim>\<open>ArrayBuffer\<close> that the store has gained.
\<close>

lemma VSBuffer_alloc_cases:
  assumes "0 \<le> n" "n \<le> int (kMaxLength e)"
  shows "\<exists>ret st1 h1. VSBuffer_alloc e h st n = Inr (ret, st1, h1) \<and>
    VSBuffer_inv ret \<and> byte_length (buffer ret) = nat n \<and>
    ((st1 = st \<and> array_buffer (buffer ret) = allocPool h \<and>
      byte_offset (buffer ret) = poolOffset h \<and>
      allocPool h < length st \<and> poolOffset h + nat n \<le> length (st ! allocPool h)) \<or>
     (\<exists>x. st1 = st @ [x] \<and> array_buffer (buffer ret) = length st \<and>
        byte_offset (buffer ret) = 0 \<and> nat n \<le> length x))"
proof (cases "hasBuffer e")
  case True
  obtain a st1 h1 where al: "allocate e h st (nat n) = (a, st1, h1)"
    by (cases "allocate e h st (nat n)") auto
  with True assms have "VSBuffer_alloc e h st n = Inr (VSBuffer_new a, st1, h1)"
    by (simp add: VSBuffer_alloc_def Buffer_allocUnsafe_def)
  with allocate_cases [OF al] show ?thesis
    by (simp add: VSBuffer_new_def VSBuffer_inv_def)
next
  case False
  with assms show ?thesis
    by (simp add: VSBuffer_alloc_def new_Uint8Array_def VSBuffer_new_def VSBuffer_inv_def)
qed

lemma VSBuffer_alloc_ok:
  assumes "VSBuffer_alloc e h st n = Inr (b, st', h')"
  shows "VSBuffer_ok st' b"
proof -
  have n: "0 \<le> n" "n \<le> int (kMaxLength e)"
    using assms
    by (auto simp: VSBuffer_alloc_def Buffer_allocUnsafe_def new_Uint8Array_def
        split: if_splits)
  from VSBuffer_alloc_cases [OF n, of h st] assms show ?thesis
    by (auto simp: VSBuffer_ok_def view_ok_def nth_append)
qed

lemma kMaxLength_ge: "0x3FFFFFFF \<le> kMaxLength e"
  by (simp add: kMaxLength_def)

lemma write_0x01020304:
  assumes "view_ok st a" "byte_length a = 4"
  shows "contents (writeUInt32BE st a 0x01020304 0) a = [1, 2, 3, 4]"
proof -
  have "length (contents st a) = 4" using assms by (simp add: length_contents)
  then obtain x0 x1 x2 x3 where xs: "contents st a = [x0, x1, x2, x3]"
    by (auto simp: length_Suc_conv eval_nat_numeral)
  have ex: "ToUint8 0x01020304 = 4" "ToUint8 (ushr 0x01020304 8) = 3"
    "ToUint8 (ushr (ushr 0x01020304 8) 8) = 2"
    "ToUint8 (ushr (ushr (ushr 0x01020304 8) 8) 8) = 1"
    by (simp_all add: ToUint8_def ushr_8)
  have "contents (writeUInt32BE st a 0x01020304 0) a =
      [x0, x1, x2, x3][3 := 4, 2 := 3, 1 := 2, 0 := 1]"
    using assms by (subst contents_writeUInt32BE) (simp_all add: xs ex)
  also have "\<dots> = [1, 2, 3, 4]"
    by (simp add: eval_nat_numeral)
  finally show ?thesis .
qed

text \<open>
  C4. After \<open>alloc(4)\<close> and \<open>writeUInt32BE(0x01020304, 0)\<close> the buffer's bytes are
  \<open>0x01, 0x02, 0x03, 0x04\<close>: the most significant byte comes first. This holds in
  either environment, wherever the host places the four bytes and whatever the memory
  held.
\<close>

theorem writeUInt32BE_big_endian:
  "\<exists>b st' h'. VSBuffer_alloc e h st 4 = Inr (b, st', h') \<and>
     contents (VSBuffer_writeUInt32BE st' b 0x01020304 0) (buffer b) =
       [0x01, 0x02, 0x03, 0x04]"
proof -
  have "(4::int) \<le> int (kMaxLength e)" using kMaxLength_ge [of e] by simp
  with VSBuffer_alloc_cases [of 4 e h st] obtain b st' h' where
    al: "VSBuffer_alloc e h st 4 = Inr (b, st', h')" and len: "byte_length (buffer b) = 4"
    by auto
  from al have "VSBuffer_ok st' b" by (rule VSBuffer_alloc_ok)
  then have "view_ok st' (buffer b)" by (simp add: VSBuffer_ok_def)
  then have "contents (writeUInt32BE st' (buffer b) 0x01020304 0) (buffer b) = [1, 2, 3, 4]"
    using len by (rule write_0x01020304)
  then show ?thesis using al by (auto simp: VSBuffer_writeUInt32BE_def)
qed

text \<open>
  C5. \<open>writeUInt32BE\<close> keeps the low 32 bits of the value: whatever integer \<open>v\<close> is
  written at an offset with four bytes in range (non-negative or not, below \<open>2 ^ 32\<close> or
  not), \<open>readUInt32BE\<close> reads \<open>v mod 2 ^ 32\<close> back. The write has no error result: it
  returns the store.
\<close>

theorem writeUInt32BE_truncates:
  assumes "VSBuffer_ok st b" and "0 \<le> offset" and "offset + 4 \<le> int (byteLength b)"
  shows "VSBuffer_readUInt32BE (VSBuffer_writeUInt32BE st b v offset) b offset =
    Number (v mod 2 ^ 32)"
proof -
  have "view_ok st (buffer b)" "offset + 4 \<le> int (byte_length (buffer b))"
    using assms by (simp_all add: VSBuffer_ok_def VSBuffer_inv_def)
  then show ?thesis
    using assms(2)
    by (simp add: VSBuffer_readUInt32BE_def VSBuffer_writeUInt32BE_def read_write_UInt32BE)
qed

theorem writeUInt32BE_truncates_witness:
  "VSBuffer_ok [[7, 7, 7, 7, 7, 7]]
     \<lparr>buffer = \<lparr>array_buffer = 0, byte_offset = 0, byte_length = 6, is_buffer = True\<rparr>,
      byteLength = 6\<rparr> \<and>
   VSBuffer_readUInt32BE
     (VSBuffer_writeUInt32BE [[7, 7, 7, 7, 7, 7]]
        \<lparr>buffer = \<lparr>array_buffer = 0, byte_offset = 0, byte_length = 6, is_buffer = True\<rparr>,
         byteLength = 6\<rparr> 4294967301 2)
     \<lparr>buffer = \<lparr>array_buffer = 0, byte_offset = 0, byte_length = 6, is_buffer = True\<rparr>,
      byteLength = 6\<rparr> 2 = Number 5"
  using writeUInt32BE_truncates [of "[[7, 7, 7, 7, 7, 7]]"
      "\<lparr>buffer = \<lparr>array_buffer = 0, byte_offset = 0, byte_length = 6, is_buffer = True\<rparr>,
        byteLength = 6\<rparr>" 2 4294967301]
  by (simp add: VSBuffer_ok_def VSBuffer_inv_def view_ok_def)

text \<open>
  C7. At an offset inside the buffer, \<open>writeUInt8\<close> stores the value truncated to 8
  bits and changes no other byte of the buffer, and \<open>readUInt8\<close> reads the stored byte
  back: \<open>v mod 256\<close>, which is \<open>v\<close> itself when \<open>0 \<le> v \<le> 255\<close>.
\<close>

theorem writeUInt8_readUInt8:
  assumes "VSBuffer_ok st b" and "0 \<le> offset" and "offset < int (byteLength b)"
  shows "VSBuffer_readUInt8 (VSBuffer_writeUInt8 st b v offset) b offset = Number (v mod 256) \<and>
    (0 \<le> v \<and> v \<le> 255 \<longrightarrow>
       VSBuffer_readUInt8 (VSBuffer_writeUInt8 st b v offset) b offset = Number v) \<and>
    contents (VSBuffer_writeUInt8 st b v offset) (buffer b) =
      (contents st (buffer b))[nat offset := word_of_int v]"
proof -
  have ok: "view_ok st (buffer b)" "offset < int (byte_length (buffer b))"
    using assms by (simp_all add: VSBuffer_ok_def VSBuffer_inv_def)
  have rd: "VSBuffer_readUInt8 (VSBuffer_writeUInt8 st b v offset) b offset = Number (v mod 256)"
    using ok assms(2)
    by (simp add: VSBuffer_readUInt8_def VSBuffer_writeUInt8_def readUInt8_def writeUInt8_def
        get_set_index uint_ToUint8)
  have "contents (VSBuffer_writeUInt8 st b v offset) (buffer b) =
      (contents st (buffer b))[nat offset := word_of_int v]"
    using ok assms(2)
    by (simp add: VSBuffer_writeUInt8_def writeUInt8_def contents_set_index ToUint8_def)
  then show ?thesis using rd by simp
qed

theorem writeUInt8_readUInt8_witness:
  "VSBuffer_ok [[1, 2, 3]]
     \<lparr>buffer = \<lparr>array_buffer = 0, byte_offset = 1, byte_length = 2, is_buffer = False\<rparr>,
      byteLength = 2\<rparr> \<and>
   VSBuffer_readUInt8
     (VSBuffer_writeUInt8 [[1, 2, 3]]
        \<lparr>buffer = \<lparr>array_buffer = 0, byte_offset = 1, byte_length = 2, is_buffer = False\<rparr>,
         byteLength = 2\<rparr> 511 1)
     \<lparr>buffer = \<lparr>array_buffer = 0, byte_offset = 1, byte_length = 2, is_buffer = False\<rparr>,
      byteLength = 2\<rparr> 1 = Number 255 \<and>
   VSBuffer_readUInt8
     (VSBuffer_writeUInt8 [[1, 2, 3]]
        \<lparr>buffer = \<lparr>array_buffer = 0, byte_offset = 1, byte_length = 2, is_buffer = False\<rparr>,
         byteLength = 2\<rparr> 200 1)
     \<lparr>buffer = \<lparr>array_buffer = 0, byte_offset = 1, byte_length = 2, is_buffer = False\<rparr>,
      byteLength = 2\<rparr> 1 = Number 200"
  using
    writeUInt8_readUInt8 [of "[[1, 2, 3]]"
      "\<lparr>buffer = \<lparr>array_buffer = 0, byte_offset = 1, byte_length = 2, is_buffer = False\<rparr>,
        byteLength = 2\<rparr>" 1 511]
    writeUInt8_readUInt8 [of "[[1, 2, 3]]"
      "\<lparr>buffer = \<lparr>array_buffer = 0, byte_offset = 1, byte_length = 2, is_buffer = False\<rparr>,
        byteLength = 2\<rparr>" 1 200]
  by (simp add: VSBuffer_ok_def VSBuffer_inv_def view_ok_def)

section \<open>Bulk copies\<close>

lemma length_overwrite: "p + length bs \<le> length xs \<Longrightarrow> length (overwrite xs p bs) = length xs"
  by (simp add: overwrite_def)

lemma nth_overwrite:
  "p + length bs \<le> length xs \<Longrightarrow> i < length xs \<Longrightarrow>
   overwrite xs p bs ! i = (if p \<le> i \<and> i < p + length bs then bs ! (i - p) else xs ! i)"
  by (auto simp: overwrite_def nth_append)

lemma overwrite_Nil: "overwrite xs p [] = xs"
  by (simp add: overwrite_def)

lemma overwrite_overwrite:
  "p + length bs + length cs \<le> length xs \<Longrightarrow>
   overwrite (overwrite xs p bs) (p + length bs) cs = overwrite xs p (bs @ cs)"
  by (simp add: overwrite_def ac_simps)

lemma overwrite_all: "length bs = length xs \<Longrightarrow> overwrite xs 0 bs = bs"
  by (simp add: overwrite_def)

lemma take_drop_overwrite:
  "p + length bs \<le> length xs \<Longrightarrow> take (length bs) (drop p (overwrite xs p bs)) = bs"
  by (simp add: overwrite_def)

lemma Uint8Array_set_Inr:
  "0 \<le> k \<Longrightarrow> int (byte_length source) + k \<le> int (byte_length target) \<Longrightarrow>
   Uint8Array_set st target source (Some k) =
     Inr (st[array_buffer target :=
            overwrite (st ! array_buffer target) (byte_offset target + nat k) (contents st source)])"
  by (simp add: Uint8Array_set_def)


section \<open>Concatenation\<close>

lemma contents_update_other:
  "array_buffer a \<noteq> r \<Longrightarrow> contents (st[r := xs]) a = contents st a"
  by (simp add: contents_def)

lemma contents_append:
  "array_buffer a < length st \<Longrightarrow> contents (st @ ys) a = contents st a"
  by (simp add: contents_def nth_append)

lemma view_ok_append: "view_ok st a \<Longrightarrow> view_ok (st @ ys) a"
  by (simp add: view_ok_def nth_append)

lemma concat_total_eq: "concat_total bs t = t + int (sum_list (map byteLength bs))"
  by (induction bs arbitrary: t) simp_all

text \<open>A write from position \<open>p\<close> on leaves a view that ends at or before \<open>p\<close> as it was.\<close>

lemma contents_overwrite_below:
  assumes "r < length st" "p \<le> length (st ! r)"
    and "array_buffer a \<noteq> r \<or> byte_offset a + byte_length a \<le> p"
  shows "contents (st[r := overwrite (st ! r) p xs]) a = contents st a"
proof (cases "array_buffer a = r")
  case False
  then show ?thesis by (simp add: contents_update_other)
next
  case True
  with assms(3) have below: "byte_offset a + byte_length a \<le> p" by simp
  let ?xs = "st ! r"
  have "take (byte_length a) (drop (byte_offset a) (take p ?xs @ xs @ drop (p + length xs) ?xs)) =
      take (byte_length a) (drop (byte_offset a) (take p ?xs))"
    using below assms(2) by simp
  also have "\<dots> = take (byte_length a) (drop (byte_offset a) ?xs)"
    using below by (simp add: drop_take)
  finally show ?thesis
    using True assms(1) by (simp add: contents_def overwrite_def)
qed

text \<open>
  The copying loop, for a result that lies inside its \<^verbatim>\<open>ArrayBuffer\<close> and inputs none of
  which reaches into the result's bytes: the loop returns, and the store differs from
  the old one by the inputs' bytes, in order, from the running offset on.
\<close>

lemma concat_copy_eq:
  assumes "r = array_buffer (buffer ret)" "r < length st"
    and "\<forall>b \<in> set bs. VSBuffer_ok st b \<and>
           (array_buffer (buffer b) \<noteq> r \<or>
            byte_offset (buffer b) + byte_length (buffer b) \<le> byte_offset (buffer ret))"
    and "byte_offset (buffer ret) + byte_length (buffer ret) \<le> length (st ! r)"
    and "k + sum_list (map byteLength bs) \<le> byte_length (buffer ret)"
  shows "concat_copy st ret bs (int k) =
    Inr (st[r := overwrite (st ! r) (byte_offset (buffer ret) + k)
                    (concat (map (\<lambda>b. contents st (buffer b)) bs))])"
  using assms
proof (induction bs arbitrary: st k)
  case Nil
  then show ?case by (simp add: overwrite_Nil)
next
  case (Cons b bs)
  let ?p = "byte_offset (buffer ret) + k"
  let ?src = "contents st (buffer b)"
  let ?st1 = "st[r := overwrite (st ! r) ?p ?src]"
  have b: "VSBuffer_ok st b" using Cons.prems by simp
  have lenb: "byteLength b = byte_length (buffer b)" "length ?src = byte_length (buffer b)"
    using b by (simp_all add: VSBuffer_ok_def VSBuffer_inv_def length_contents)
  have fit: "?p + length ?src \<le> length (st ! r)"
    using Cons.prems lenb by simp
  then have p: "?p \<le> length (st ! r)" by simp
  have set1: "VSBuffer_set st ret b (Some (int k)) = Inr ?st1"
    unfolding VSBuffer_set_def using Cons.prems lenb
    by (subst Uint8Array_set_Inr) simp_all
  have same: "contents ?st1 (buffer x) = contents st (buffer x)" if "x \<in> set bs" for x
  proof -
    from that Cons.prems(3) have "array_buffer (buffer x) \<noteq> r \<or>
        byte_offset (buffer x) + byte_length (buffer x) \<le> ?p"
      by auto
    with Cons.prems(2) p show ?thesis by (rule contents_overwrite_below)
  qed
  have ok1: "\<forall>x \<in> set bs. VSBuffer_ok ?st1 x \<and>
      (array_buffer (buffer x) \<noteq> r \<or>
       byte_offset (buffer x) + byte_length (buffer x) \<le> byte_offset (buffer ret))"
    using Cons.prems fit
    by (auto simp: VSBuffer_ok_def view_ok_def nth_list_update length_overwrite)
  have "concat_copy ?st1 ret bs (int (k + byteLength b)) =
    Inr (?st1[r := overwrite (?st1 ! r) (byte_offset (buffer ret) + (k + byteLength b))
                    (concat (map (\<lambda>x. contents ?st1 (buffer x)) bs))])"
    using Cons.prems ok1 fit by (intro Cons.IH) (simp_all add: length_overwrite)
  also have "(map (\<lambda>x. contents ?st1 (buffer x)) bs) = map (\<lambda>x. contents st (buffer x)) bs"
    using same by simp
  also have "?st1[r := overwrite (?st1 ! r) (byte_offset (buffer ret) + (k + byteLength b))
                    (concat (map (\<lambda>x. contents st (buffer x)) bs))] =
     st[r := overwrite (st ! r) ?p (?src @ concat (map (\<lambda>x. contents st (buffer x)) bs))]"
  proof -
    have "length (concat (map (\<lambda>x. contents st (buffer x)) bs)) = sum_list (map byteLength bs)"
      using Cons.prems
      by (simp add: length_concat VSBuffer_ok_def VSBuffer_inv_def length_contents cong: map_cong)
    then have "?p + length ?src + length (concat (map (\<lambda>x. contents st (buffer x)) bs)) \<le>
        length (st ! r)"
      using Cons.prems lenb by simp
    then have "overwrite (overwrite (st ! r) ?p ?src) (?p + length ?src)
        (concat (map (\<lambda>x. contents st (buffer x)) bs)) =
       overwrite (st ! r) ?p (?src @ concat (map (\<lambda>x. contents st (buffer x)) bs))"
      by (rule overwrite_overwrite)
    then show ?thesis using Cons.prems(2) lenb by (simp add: ac_simps)
  qed
  finally show ?case using set1 by (simp add: ac_simps)
qed

lemma length_concat_contents:
  assumes "\<forall>b \<in> set bs. VSBuffer_ok st b"
  shows "length (concat (map (\<lambda>b. contents st (buffer b)) bs)) = sum_list (map byteLength bs)"
  using assms
  by (simp add: length_concat VSBuffer_ok_def VSBuffer_inv_def length_contents cong: map_cong)

text \<open>
  \<open>concat\<close> into a result that is placed: the result holds the inputs' bytes in order, and
  every view that does not reach into the result's bytes shows what it showed.
\<close>

lemma concat_copy_placed:
  assumes ret: "view_ok st (buffer ret)"
      "byte_length (buffer ret) = sum_list (map byteLength bs)"
    and bs: "\<forall>b \<in> set bs. VSBuffer_ok st b \<and>
           (array_buffer (buffer b) \<noteq> array_buffer (buffer ret) \<or>
            byte_offset (buffer b) + byte_length (buffer b) \<le> byte_offset (buffer ret))"
  shows "\<exists>st'. concat_copy st ret bs 0 = Inr st' \<and>
      contents st' (buffer ret) = concat (map (\<lambda>b. contents st (buffer b)) bs) \<and>
      view_ok st' (buffer ret) \<and>
      (\<forall>a. view_ok st a \<and>
           (array_buffer a \<noteq> array_buffer (buffer ret) \<or>
            byte_offset a + byte_length a \<le> byte_offset (buffer ret)) \<longrightarrow>
           view_ok st' a \<and> contents st' a = contents st a)"
proof -
  let ?r = "array_buffer (buffer ret)"
  let ?p = "byte_offset (buffer ret)"
  let ?all = "concat (map (\<lambda>b. contents st (buffer b)) bs)"
  let ?st' = "st[?r := overwrite (st ! ?r) ?p ?all]"
  have r: "?r < length st" "?p + byte_length (buffer ret) \<le> length (st ! ?r)"
    using ret(1) by (simp_all add: view_ok_def)
  have len: "length ?all = byte_length (buffer ret)"
    using bs ret(2) by (simp add: length_concat_contents)
  have fit: "?p + length ?all \<le> length (st ! ?r)" using r len by simp
  have "concat_copy st ret bs (int 0) =
      Inr (st[?r := overwrite (st ! ?r) (?p + 0) ?all])"
    using r bs ret(2) by (intro concat_copy_eq) simp_all
  then have run: "concat_copy st ret bs 0 = Inr ?st'" by simp
  have lens: "map length ?st' = map length st"
    using r(1) fit by (simp add: list_eq_iff_nth_eq nth_list_update length_overwrite)
  have ok: "view_ok ?st' a" if "view_ok st a" for a
    using that r(1) fit by (auto simp: view_ok_def nth_list_update length_overwrite)
  have c: "contents ?st' (buffer ret) = ?all"
  proof -
    have "contents ?st' (buffer ret) =
        take (length ?all) (drop ?p (overwrite (st ! ?r) ?p ?all))"
      using r(1) len by (simp add: contents_def)
    then show ?thesis using fit by (simp add: take_drop_overwrite)
  qed
  have keep: "contents ?st' a = contents st a"
    if "array_buffer a \<noteq> ?r \<or> byte_offset a + byte_length a \<le> ?p" for a
    using r(1) _ that by (rule contents_overwrite_below) (use fit in simp)
  show ?thesis using run c ok [OF ret(1)] ok keep by blast
qed

lemma VSBuffer_concat_placed:
  assumes al: "VSBuffer_alloc e h st (int (sum_list (map byteLength buffers))) = Inr (ret, st1, h1)"
    and ret: "view_ok st1 (buffer ret)" "VSBuffer_inv ret"
      "byte_length (buffer ret) = sum_list (map byteLength buffers)"
    and old: "\<And>a. view_ok st a \<Longrightarrow> off_pool h a \<Longrightarrow>
        view_ok st1 a \<and> contents st1 a = contents st a \<and>
        (array_buffer a \<noteq> array_buffer (buffer ret) \<or>
         byte_offset a + byte_length a \<le> byte_offset (buffer ret))"
    and bs: "\<forall>b \<in> set buffers. VSBuffer_ok st b \<and> off_pool h (buffer b)"
  shows "\<exists>st'. VSBuffer_concat e h st buffers None = Inr (ret, st', h1) \<and>
      byteLength ret = sum_list (map byteLength buffers) \<and>
      contents st' (buffer ret) = concat (map (\<lambda>b. contents st (buffer b)) buffers) \<and>
      VSBuffer_ok st' ret \<and>
      (\<forall>a. view_ok st a \<and> off_pool h a \<longrightarrow> view_ok st' a \<and> contents st' a = contents st a)"
proof -
  have bs1: "\<forall>b \<in> set buffers. VSBuffer_ok st1 b \<and>
      (array_buffer (buffer b) \<noteq> array_buffer (buffer ret) \<or>
       byte_offset (buffer b) + byte_length (buffer b) \<le> byte_offset (buffer ret))"
    using bs old by (simp add: VSBuffer_ok_def)
  have same: "map (\<lambda>b. contents st1 (buffer b)) buffers = map (\<lambda>b. contents st (buffer b)) buffers"
    using bs old by (simp add: VSBuffer_ok_def)
  from concat_copy_placed [OF ret(1) ret(3) bs1] obtain st' where
    run: "concat_copy st1 ret buffers 0 = Inr st'"
    and c: "contents st' (buffer ret) = concat (map (\<lambda>b. contents st1 (buffer b)) buffers)"
    and okr: "view_ok st' (buffer ret)"
    and keep: "\<And>a. view_ok st1 a \<Longrightarrow>
        array_buffer a \<noteq> array_buffer (buffer ret) \<or>
        byte_offset a + byte_length a \<le> byte_offset (buffer ret) \<Longrightarrow>
        view_ok st' a \<and> contents st' a = contents st1 a"
    by blast
  have res: "VSBuffer_concat e h st buffers None = Inr (ret, st', h1)"
    using al run by (simp add: VSBuffer_concat_def concat_total_eq)
  have len: "byteLength ret = sum_list (map byteLength buffers)"
    using ret(2,3) by (simp add: VSBuffer_inv_def)
  have frame: "view_ok st' a \<and> contents st' a = contents st a"
    if "view_ok st a \<and> off_pool h a" for a
  proof -
    from that old [of a] have o: "view_ok st1 a" "contents st1 a = contents st a"
      "array_buffer a \<noteq> array_buffer (buffer ret) \<or>
       byte_offset a + byte_length a \<le> byte_offset (buffer ret)"
      by simp_all
    from keep [OF o(1) o(3)] o(2) show ?thesis by simp
  qed
  show ?thesis
    using res len c same okr ret(2) frame by (auto simp: VSBuffer_ok_def)
qed

lemma VSBuffer_concat_returns:
  assumes bs: "\<forall>b \<in> set bs. VSBuffer_ok st b \<and> off_pool h (buffer b)"
    and lim: "sum_list (map byteLength bs) \<le> kMaxLength e"
  shows "\<exists>ret st' h'. VSBuffer_concat e h st bs None = Inr (ret, st', h') \<and>
      byteLength ret = sum_list (map byteLength bs) \<and>
      contents st' (buffer ret) = concat (map (\<lambda>b. contents st (buffer b)) bs) \<and>
      VSBuffer_ok st' ret \<and>
      (\<forall>a. view_ok st a \<and> off_pool h a \<longrightarrow>
           view_ok st' a \<and> contents st' a = contents st a)"
proof -
  let ?n = "sum_list (map byteLength bs)"
  from VSBuffer_alloc_cases [of "int ?n" e h st] lim obtain ret st1 h1 where
    al: "VSBuffer_alloc e h st (int ?n) = Inr (ret, st1, h1)"
    and inv: "VSBuffer_inv ret" and len: "byte_length (buffer ret) = ?n"
    and place: "(st1 = st \<and> array_buffer (buffer ret) = allocPool h \<and>
        byte_offset (buffer ret) = poolOffset h \<and>
        allocPool h < length st \<and> poolOffset h + ?n \<le> length (st ! allocPool h)) \<or>
      (\<exists>x. st1 = st @ [x] \<and> array_buffer (buffer ret) = length st \<and>
        byte_offset (buffer ret) = 0 \<and> ?n \<le> length x)"
    by auto
  have okr: "view_ok st1 (buffer ret)"
    using place len by (auto simp: view_ok_def)
  have old: "view_ok st1 a \<and> contents st1 a = contents st a \<and>
      (array_buffer a \<noteq> array_buffer (buffer ret) \<or>
       byte_offset a + byte_length a \<le> byte_offset (buffer ret))"
    if "view_ok st a" "off_pool h a" for a
    using place
  proof
    assume "st1 = st \<and> array_buffer (buffer ret) = allocPool h \<and>
        byte_offset (buffer ret) = poolOffset h \<and>
        allocPool h < length st \<and> poolOffset h + ?n \<le> length (st ! allocPool h)"
    with that show ?thesis by (simp add: off_pool_def)
  next
    assume "\<exists>x. st1 = st @ [x] \<and> array_buffer (buffer ret) = length st \<and>
        byte_offset (buffer ret) = 0 \<and> ?n \<le> length x"
    then obtain x where "st1 = st @ [x]" "array_buffer (buffer ret) = length st" by blast
    moreover have "array_buffer a < length st" using that(1) by (simp add: view_ok_def)
    ultimately show ?thesis
      using that(1) by (simp add: view_ok_append contents_append)
  qed
  from VSBuffer_concat_placed [OF al okr inv len old bs] show ?thesis by blast
qed





section \<open>Views that keep off the unused part of the pool\<close>

text \<open>
  The buffers that the module makes keep off the unused part of the pool, and so do
  their slices; an allocation leaves the older ones off it.
\<close>

lemma alignPool_mono: "allocPool (alignPool h) = allocPool h \<and> poolOffset h \<le> poolOffset (alignPool h)"
proof (cases "poolOffset h mod 8 = 0")
  case True
  then show ?thesis by (simp add: alignPool_def)
next
  case False
  define q where "q = poolOffset h div 8"
  have "poolOffset h = q * 8 + poolOffset h mod 8" by (simp add: q_def)
  moreover have "poolOffset h mod 8 < 8" by simp
  ultimately have "poolOffset h \<le> q * 8 + 8" by linarith
  then have "poolOffset h \<le> (poolOffset h div 8 + 1) * 8" by (simp add: q_def)
  with False show ?thesis by (simp add: alignPool_def)
qed

lemma pool_take_pool:
  assumes "pool_take e h st n = (a, st1, h1)"
  shows "allocPool h1 = array_buffer a \<and> poolOffset h1 = byte_offset a + n"
  using assms by (auto simp: pool_take_def createPool_def split: if_splits)

lemma allocate_off_pool:
  assumes al: "allocate e h st n = (a, st1, h1)" and pool: "allocPool h < length st"
  shows "off_pool h1 a \<and> allocPool h1 < length st1 \<and>
    (\<forall>v. view_ok st v \<and> off_pool h v \<longrightarrow> off_pool h1 v)"
proof -
  consider "n = 0" | "0 < n" "n < poolSize div 2" | "poolSize div 2 \<le> n"
    by (cases "n = 0"; cases "n < poolSize div 2") auto
  then show ?thesis
  proof cases
    case 1
    with al pool show ?thesis
      by (auto simp: allocate_def FastBuffer_empty_def off_pool_def)
  next
    case 2
    obtain a' st' h' where pt: "pool_take e h st n = (a', st', h')"
      by (cases "pool_take e h st n") auto
    with 2 al have res: "a = a'" "st1 = st'" "h1 = alignPool h'"
      by (simp_all add: allocate_def)
    note pl = pool_take_cases [OF 2 pt] and ph = pool_take_pool [OF pt]
      and am = alignPool_mono [of h']
    have own: "off_pool h1 a"
      unfolding res off_pool_def using pl ph am by simp
    have valid: "allocPool h1 < length st1"
      unfolding res using pl ph am by auto
    have others: "off_pool h1 v" if "view_ok st v \<and> off_pool h v" for v
    proof -
      from that have v: "array_buffer v < length st" by (simp add: view_ok_def)
      from pl have "(array_buffer a' = allocPool h \<and> byte_offset a' = poolOffset h) \<or>
          array_buffer a' = length st"
        by auto
      then show ?thesis
        unfolding res off_pool_def using that v ph am
        by (auto simp: off_pool_def)
    qed
    show ?thesis using own valid others by blast
  next
    case 3
    then have "\<not> n \<le> 0" "\<not> n < poolSize div 2" by (simp_all add: poolSize_def)
    with al pool show ?thesis
      by (auto simp: allocate_def createUnsafeBuffer_def off_pool_def)
  qed
qed

lemma VSBuffer_alloc_off_pool:
  assumes "VSBuffer_alloc e h st n = Inr (b, st', h')" "allocPool h < length st"
  shows "off_pool h' (buffer b) \<and> allocPool h' < length st' \<and>
    (\<forall>v. view_ok st v \<and> off_pool h v \<longrightarrow> off_pool h' v)"
proof (cases "hasBuffer e")
  case True
  with assms(1) obtain a where "allocate e h st (nat n) = (a, st', h')" "b = VSBuffer_new a"
    by (auto simp: VSBuffer_alloc_def Buffer_allocUnsafe_def split: if_splits prod.splits)
  with allocate_off_pool [OF this(1) assms(2)] show ?thesis
    by (simp add: VSBuffer_new_def)
next
  case False
  with assms show ?thesis
    by (auto simp: VSBuffer_alloc_def new_Uint8Array_def VSBuffer_new_def off_pool_def
        split: if_splits)
qed

lemma subarray_off_pool:
  assumes "off_pool h a"
  shows "off_pool h (subarray a start end')"
proof -
  define len where "len = byte_length a"
  define p where "p = relative_index (case start of None \<Rightarrow> 0 | Some k \<Rightarrow> k) len"
  define q where "q = (case end' of None \<Rightarrow> len | Some k \<Rightarrow> relative_index k len)"
  have q: "q \<le> len"
    by (cases end') (auto simp: q_def relative_index_def)
  have sub: "subarray a start end' =
      a\<lparr>byte_offset := byte_offset a + p, byte_length := nat (max (int q - int p) 0)\<rparr>"
    unfolding p_def q_def len_def by (simp add: subarray_def Let_def)
  have p: "p \<le> len"
    by (auto simp: p_def relative_index_def)
  have "p + nat (max (int q - int p) 0) \<le> len"
    using p q by (cases "p \<le> q") (simp_all add: max_def, linarith)
  then have "byte_offset a + p + nat (max (int q - int p) 0) \<le> byte_offset a + byte_length a"
    by (simp add: len_def)
  with assms show ?thesis
    unfolding sub off_pool_def by auto
qed

section \<open>The frame of \<open>set\<close>\<close>

lemma VSBuffer_set_Inr:
  assumes "k = (case offset of None \<Rightarrow> 0 | Some j \<Rightarrow> j)" "0 \<le> k"
    "k + int (byteLength s) \<le> int (byteLength d)" "VSBuffer_inv d" "VSBuffer_inv s"
  shows "VSBuffer_set st d s offset =
     Inr (st[array_buffer (buffer d) :=
            overwrite (st ! array_buffer (buffer d)) (byte_offset (buffer d) + nat k)
              (contents st (buffer s))])"
  using assms
  by (cases offset) (simp_all add: VSBuffer_set_def Uint8Array_set_def VSBuffer_inv_def)

text \<open>
  C10. When the source fits into the destination at the offset (a missing offset is 0),
  \<open>set\<close> returns, and every byte of the destination before the offset or from
  \<open>offset + s.byteLength\<close> on reads as it did before; the destination keeps its length,
  and the bytes in between are the source's.
\<close>

theorem set_frame:
  assumes "VSBuffer_ok st d" and "VSBuffer_ok st s"
    and "k = (case offset of None \<Rightarrow> 0 | Some j \<Rightarrow> j)"
    and "0 \<le> k" and "k + int (byteLength s) \<le> int (byteLength d)"
  shows "\<exists>st'. VSBuffer_set st d s offset = Inr st' \<and>
     (\<forall>i. i < k \<or> k + int (byteLength s) \<le> i \<longrightarrow>
          VSBuffer_readUInt8 st' d i = VSBuffer_readUInt8 st d i) \<and>
     length (contents st' (buffer d)) = byteLength d \<and>
     take (byteLength s) (drop (nat k) (contents st' (buffer d))) = contents st (buffer s)"
proof -
  let ?r = "array_buffer (buffer d)"
  let ?p = "byte_offset (buffer d) + nat k"
  let ?src = "contents st (buffer s)"
  let ?st' = "st[?r := overwrite (st ! ?r) ?p ?src]"
  have inv: "byteLength d = byte_length (buffer d)" "byteLength s = byte_length (buffer s)"
    "view_ok st (buffer d)" "view_ok st (buffer s)"
    using assms by (simp_all add: VSBuffer_ok_def VSBuffer_inv_def)
  have lsrc: "length ?src = byteLength s" using inv by (simp add: length_contents)
  have r: "?r < length st" "byte_offset (buffer d) + byte_length (buffer d) \<le> length (st ! ?r)"
    using inv by (simp_all add: view_ok_def)
  have fit: "?p + length ?src \<le> length (st ! ?r)"
    using r assms(4,5) inv lsrc by linarith
  have eq: "VSBuffer_set st d s offset = Inr ?st'"
    using assms by (intro VSBuffer_set_Inr) (simp_all add: VSBuffer_ok_def)
  have ok': "view_ok ?st' (buffer d)"
    using r fit by (simp add: view_ok_def length_overwrite)
  have frame: "VSBuffer_readUInt8 ?st' d i = VSBuffer_readUInt8 st d i"
    if "i < k \<or> k + int (byteLength s) \<le> i" for i
  proof (cases "0 \<le> i \<and> i < int (byte_length (buffer d))")
    case True
    then have "byte_offset (buffer d) + nat i < length (st ! ?r)" using r by linarith
    moreover have "\<not> (?p \<le> byte_offset (buffer d) + nat i \<and>
        byte_offset (buffer d) + nat i < ?p + length ?src)"
      using that True assms(4) lsrc by linarith
    ultimately have "overwrite (st ! ?r) ?p ?src ! (byte_offset (buffer d) + nat i) =
        st ! ?r ! (byte_offset (buffer d) + nat i)"
      using fit by (subst nth_overwrite) auto
    then show ?thesis
      using True r by (simp add: VSBuffer_readUInt8_def readUInt8_def get_index_def)
  next
    case False
    then show ?thesis
      by (auto simp: VSBuffer_readUInt8_def readUInt8_def get_index_def)
  qed
  have len: "length (contents ?st' (buffer d)) = byteLength d"
    using ok' inv by (simp add: length_contents)
  have "take (byteLength s) (drop (nat k) (contents ?st' (buffer d))) = ?src"
  proof -
    have "contents ?st' (buffer d) =
        take (byte_length (buffer d)) (drop (byte_offset (buffer d)) (overwrite (st ! ?r) ?p ?src))"
      using r by (simp add: contents_def)
    then have "take (byteLength s) (drop (nat k) (contents ?st' (buffer d))) =
        take (length ?src) (drop ?p (overwrite (st ! ?r) ?p ?src))"
      using assms(4,5) inv lsrc
      by (simp add: drop_take take_take ac_simps min_def) 
    then show ?thesis using fit by (simp add: take_drop_overwrite)
  qed
  then show ?thesis using eq frame len by blast
qed


theorem set_frame_witness:
  "VSBuffer_ok [[1, 2, 3, 4, 5], [8, 9]]
     \<lparr>buffer = \<lparr>array_buffer = 0, byte_offset = 1, byte_length = 4, is_buffer = False\<rparr>,
      byteLength = 4\<rparr> \<and>
   VSBuffer_ok [[1, 2, 3, 4, 5], [8, 9]]
     \<lparr>buffer = \<lparr>array_buffer = 1, byte_offset = 0, byte_length = 2, is_buffer = False\<rparr>,
      byteLength = 2\<rparr> \<and>
   (\<exists>st'.
      VSBuffer_set [[1, 2, 3, 4, 5], [8, 9]]
        \<lparr>buffer = \<lparr>array_buffer = 0, byte_offset = 1, byte_length = 4, is_buffer = False\<rparr>,
         byteLength = 4\<rparr>
        \<lparr>buffer = \<lparr>array_buffer = 1, byte_offset = 0, byte_length = 2, is_buffer = False\<rparr>,
         byteLength = 2\<rparr> (Some 1) = Inr st' \<and>
      VSBuffer_readUInt8 st'
        \<lparr>buffer = \<lparr>array_buffer = 0, byte_offset = 1, byte_length = 4, is_buffer = False\<rparr>,
         byteLength = 4\<rparr> 0 = Number 2 \<and>
      VSBuffer_readUInt8 st'
        \<lparr>buffer = \<lparr>array_buffer = 0, byte_offset = 1, byte_length = 4, is_buffer = False\<rparr>,
         byteLength = 4\<rparr> 3 = Number 5)"
proof -
  let ?st = "[[1, 2, 3, 4, 5], [8, 9]] :: store"
  let ?d = "\<lparr>buffer = \<lparr>array_buffer = 0, byte_offset = 1, byte_length = 4, is_buffer = False\<rparr>,
      byteLength = 4\<rparr>"
  let ?s = "\<lparr>buffer = \<lparr>array_buffer = 1, byte_offset = 0, byte_length = 2, is_buffer = False\<rparr>,
      byteLength = 2\<rparr>"
  have ok: "VSBuffer_ok ?st ?d" "VSBuffer_ok ?st ?s"
    by (simp_all add: VSBuffer_ok_def VSBuffer_inv_def view_ok_def)
  have old: "VSBuffer_readUInt8 ?st ?d 0 = Number 2" "VSBuffer_readUInt8 ?st ?d 3 = Number 5"
    by (simp_all add: VSBuffer_readUInt8_def readUInt8_def get_index_def)
  from set_frame [OF ok, of 1 "Some 1"] obtain st' where
    "VSBuffer_set ?st ?d ?s (Some 1) = Inr st'"
    "\<forall>i. i < 1 \<or> 1 + int (byteLength ?s) \<le> i \<longrightarrow>
       VSBuffer_readUInt8 st' ?d i = VSBuffer_readUInt8 ?st ?d i"
    by auto
  then show ?thesis using ok old by auto
qed

section \<open>Slices\<close>

lemma subarray_in_range:
  assumes "0 \<le> start" "start \<le> end'" "end' \<le> int (byte_length a)"
  shows "subarray a (Some start) (Some end') =
    a\<lparr>byte_offset := byte_offset a + nat start, byte_length := nat (end' - start)\<rparr>"
  using assms by (simp add: subarray_def relative_index_def Let_def min_def max_def)

lemma contents_subview:
  assumes "p + n \<le> byte_length a"
  shows "contents st (a\<lparr>byte_offset := byte_offset a + p, byte_length := n\<rparr>) =
    take n (drop p (contents st a))"
  using assms by (simp add: contents_def drop_take ac_simps min_def)

text \<open>
  C6. For \<open>0 \<le> start \<le> end \<le> b.byteLength\<close>, \<open>b.slice(start, end)\<close> has \<open>end - start\<close> bytes,
  which are \<open>b\<close>'s bytes from \<open>start\<close> to \<open>end\<close>. It is a view of the same \<^verbatim>\<open>ArrayBuffer\<close> (the
  operation does not touch the store): a byte written through the slice at \<open>i\<close> is read
  through \<open>b\<close> at \<open>start + i\<close>, and a byte written through \<open>b\<close> at \<open>j\<close> inside the range is
  read through the slice at \<open>j - start\<close>.
\<close>

theorem slice_view:
  assumes "VSBuffer_ok st b" and "0 \<le> start" and "start \<le> end'"
    and "end' \<le> int (byteLength b)"
  shows "byteLength (VSBuffer_slice b (Some start) (Some end')) = nat (end' - start) \<and>
    contents st (buffer (VSBuffer_slice b (Some start) (Some end'))) =
      take (nat (end' - start)) (drop (nat start) (contents st (buffer b))) \<and>
    VSBuffer_ok st (VSBuffer_slice b (Some start) (Some end')) \<and>
    array_buffer (buffer (VSBuffer_slice b (Some start) (Some end'))) = array_buffer (buffer b) \<and>
    (\<forall>i v. 0 \<le> i \<and> i < end' - start \<longrightarrow>
       VSBuffer_readUInt8
         (VSBuffer_writeUInt8 st (VSBuffer_slice b (Some start) (Some end')) v i) b (start + i) =
       Number (v mod 256)) \<and>
    (\<forall>j v. start \<le> j \<and> j < end' \<longrightarrow>
       VSBuffer_readUInt8 (VSBuffer_writeUInt8 st b v j)
         (VSBuffer_slice b (Some start) (Some end')) (j - start) =
       Number (v mod 256))"
proof -
  let ?a = "buffer b"
  let ?s = "?a\<lparr>byte_offset := byte_offset ?a + nat start, byte_length := nat (end' - start)\<rparr>"
  have inv: "byteLength b = byte_length ?a" "view_ok st ?a"
    using assms(1) by (simp_all add: VSBuffer_ok_def VSBuffer_inv_def)
  have sl: "VSBuffer_slice b (Some start) (Some end') = VSBuffer_new ?s"
    using assms inv by (simp add: VSBuffer_slice_def subarray_in_range)
  have fit: "nat start + nat (end' - start) \<le> byte_length ?a"
    using assms inv by linarith
  have oks: "view_ok st ?s"
    using inv fit by (simp add: view_ok_def)
  have c: "contents st ?s = take (nat (end' - start)) (drop (nat start) (contents st ?a))"
    using fit by (rule contents_subview)
  have w1: "VSBuffer_readUInt8 (VSBuffer_writeUInt8 st (VSBuffer_new ?s) v i) b (start + i) =
      Number (v mod 256)" if "0 \<le> i \<and> i < end' - start" for i v
  proof -
    have i: "0 \<le> i" "i < int (byte_length ?s)" using that by simp_all
    have hit: "0 \<le> start + i \<and> start + i < int (byte_length ?a) \<and>
        array_buffer ?a = array_buffer ?s \<and>
        byte_offset ?a + nat (start + i) = byte_offset ?s + nat i"
      using that assms inv by (simp add: nat_add_distrib)
    have "get_index (set_index st ?s i v) ?a (start + i) = Number (uint (ToUint8 v))"
      unfolding get_set_index [OF oks inv(2) i, of v "start + i"] by (rule if_P [OF hit])
    then show ?thesis
      by (simp add: VSBuffer_readUInt8_def VSBuffer_writeUInt8_def readUInt8_def
          writeUInt8_def VSBuffer_new_def uint_ToUint8)
  qed
  have w2: "VSBuffer_readUInt8 (VSBuffer_writeUInt8 st b v j) (VSBuffer_new ?s) (j - start) =
      Number (v mod 256)" if "start \<le> j \<and> j < end'" for j v
  proof -
    have j: "0 \<le> j" "j < int (byte_length ?a)" using that assms inv by simp_all
    have "nat start + nat (j - start) = nat j" using that assms(2) by linarith
    then have hit: "0 \<le> j - start \<and> j - start < int (byte_length ?s) \<and>
        array_buffer ?s = array_buffer ?a \<and>
        byte_offset ?s + nat (j - start) = byte_offset ?a + nat j"
      using that assms inv by simp
    have "get_index (set_index st ?a j v) ?s (j - start) = Number (uint (ToUint8 v))"
      unfolding get_set_index [OF inv(2) oks j, of v "j - start"] by (rule if_P [OF hit])
    then show ?thesis
      by (simp add: VSBuffer_readUInt8_def VSBuffer_writeUInt8_def readUInt8_def
          writeUInt8_def VSBuffer_new_def uint_ToUint8)
  qed
  have p1: "byteLength (VSBuffer_new ?s) = nat (end' - start)"
    by (simp add: VSBuffer_new_def)
  have p2: "contents st (buffer (VSBuffer_new ?s)) =
      take (nat (end' - start)) (drop (nat start) (contents st ?a))"
    using c by (simp add: VSBuffer_new_def)
  have p3: "VSBuffer_ok st (VSBuffer_new ?s)"
    using oks by (simp add: VSBuffer_new_def VSBuffer_ok_def VSBuffer_inv_def)
  have p4: "array_buffer (buffer (VSBuffer_new ?s)) = array_buffer ?a"
    by (simp add: VSBuffer_new_def)
  show ?thesis
    unfolding sl using p1 p2 p3 p4 w1 w2 by blast
qed


theorem slice_view_witness:
  "VSBuffer_ok [[1, 2, 3, 4, 5, 6]]
     \<lparr>buffer = \<lparr>array_buffer = 0, byte_offset = 1, byte_length = 4, is_buffer = False\<rparr>,
      byteLength = 4\<rparr> \<and>
   byteLength
     (VSBuffer_slice
        \<lparr>buffer = \<lparr>array_buffer = 0, byte_offset = 1, byte_length = 4, is_buffer = False\<rparr>,
         byteLength = 4\<rparr> (Some 1) (Some 3)) = 2 \<and>
   contents [[1, 2, 3, 4, 5, 6]]
     (buffer (VSBuffer_slice
        \<lparr>buffer = \<lparr>array_buffer = 0, byte_offset = 1, byte_length = 4, is_buffer = False\<rparr>,
         byteLength = 4\<rparr> (Some 1) (Some 3))) = [3, 4] \<and>
   VSBuffer_readUInt8
     (VSBuffer_writeUInt8 [[1, 2, 3, 4, 5, 6]]
        (VSBuffer_slice
           \<lparr>buffer = \<lparr>array_buffer = 0, byte_offset = 1, byte_length = 4, is_buffer = False\<rparr>,
            byteLength = 4\<rparr> (Some 1) (Some 3)) 300 0)
     \<lparr>buffer = \<lparr>array_buffer = 0, byte_offset = 1, byte_length = 4, is_buffer = False\<rparr>,
      byteLength = 4\<rparr> 1 = Number 44"
proof -
  let ?st = "[[1, 2, 3, 4, 5, 6]] :: store"
  let ?b = "\<lparr>buffer = \<lparr>array_buffer = 0, byte_offset = 1, byte_length = 4, is_buffer = False\<rparr>,
      byteLength = 4\<rparr>"
  have ok: "VSBuffer_ok ?st ?b"
    by (simp add: VSBuffer_ok_def VSBuffer_inv_def view_ok_def)
  have old: "take (nat (3 - 1)) (drop (nat 1) (contents ?st (buffer ?b))) = [3, 4]"
    by (simp add: contents_def)
  have pre: "(0::int) \<le> 1" "(1::int) \<le> 3" "3 \<le> int (byteLength ?b)"
    by simp_all
  note sv = slice_view [OF ok pre]
  have len: "byteLength (VSBuffer_slice ?b (Some 1) (Some 3)) = 2"
    using sv by simp
  have c: "contents ?st (buffer (VSBuffer_slice ?b (Some 1) (Some 3))) = [3, 4]"
    using sv old by simp
  have "(0::int) \<le> 0 \<and> (0::int) < 3 - 1 \<longrightarrow>
      VSBuffer_readUInt8 (VSBuffer_writeUInt8 ?st (VSBuffer_slice ?b (Some 1) (Some 3)) 300 0)
        ?b (1 + 0) = Number (300 mod 256)"
    using sv by blast
  then have w: "VSBuffer_readUInt8
      (VSBuffer_writeUInt8 ?st (VSBuffer_slice ?b (Some 1) (Some 3)) 300 0) ?b 1 = Number 44"
    by simp
  show ?thesis using ok len c w by blast
qed

section \<open>The handle's invariant\<close>

lemma VSBuffer_inv_new: "VSBuffer_inv (VSBuffer_new a)"
  by (simp add: VSBuffer_inv_def VSBuffer_new_def)

lemma map_length_overwrite_update:
  assumes "r < length st" "p + length bs \<le> length (st ! r)"
  shows "map length (st[r := overwrite (st ! r) p bs]) = map length st"
  using assms by (simp add: list_eq_iff_nth_eq nth_list_update length_overwrite)

lemma Uint8Array_set_lengths:
  assumes "Uint8Array_set st target source offset = Inr st'" "view_ok st target"
  shows "map length st' = map length st"
proof -
  define k where "k = (case offset of None \<Rightarrow> 0 | Some j \<Rightarrow> j)"
  have k: "0 \<le> k" "int (byte_length source) + k \<le> int (byte_length target)"
    and st': "st' = st[array_buffer target :=
        overwrite (st ! array_buffer target) (byte_offset target + nat k) (contents st source)]"
    using assms(1) unfolding Uint8Array_set_def k_def [symmetric] Let_def
    by (auto split: if_splits)
  have "length (contents st source) \<le> byte_length source"
    by (simp add: contents_def)
  then have "byte_offset target + nat k + length (contents st source) \<le>
      length (st ! array_buffer target)"
    using k assms(2) unfolding view_ok_def by linarith
  then show ?thesis
    unfolding st' using assms(2) by (intro map_length_overwrite_update) (simp_all add: view_ok_def)
qed

lemma view_ok_lengths:
  "map length st' = map length st \<Longrightarrow> view_ok st a \<Longrightarrow> view_ok st' a"
proof -
  assume eq: "map length st' = map length st" and ok: "view_ok st a"
  have len: "length st' = length st" using eq by (metis length_map)
  have "length (st' ! array_buffer a) = length (st ! array_buffer a)"
    using eq ok len by (metis nth_map view_ok_def)
  then show ?thesis using ok len by (simp add: view_ok_def)
qed

lemma concat_copy_lengths:
  "concat_copy st ret bs k = Inr st' \<Longrightarrow> view_ok st (buffer ret) \<Longrightarrow>
   map length st' = map length st"
proof (induction bs arbitrary: st k)
  case Nil
  then show ?case by simp
next
  case (Cons b bs)
  from Cons.prems(1) obtain st1 where
    s1: "VSBuffer_set st ret b (Some k) = Inr st1"
    and rest: "concat_copy st1 ret bs (k + int (byteLength b)) = Inr st'"
    by (auto split: sum.splits)
  have l1: "map length st1 = map length st"
    using s1 Cons.prems(2) unfolding VSBuffer_set_def by (rule Uint8Array_set_lengths)
  then have "view_ok st1 (buffer ret)" using Cons.prems(2) by (rule view_ok_lengths)
  with rest have "map length st' = map length st1" by (rule Cons.IH)
  then show ?case using l1 by simp
qed

text \<open>
  What \<open>fromString\<close> gives: a handle that lies inside its \<^verbatim>\<open>ArrayBuffer\<close> and shows the
  string's UTF-8 bytes, wherever the host has put them.
\<close>

lemma write_view:
  assumes "view_ok st a" "length bs = byte_length a"
  shows "view_ok (st[array_buffer a := overwrite (st ! array_buffer a) (byte_offset a) bs]) a \<and>
    contents (st[array_buffer a := overwrite (st ! array_buffer a) (byte_offset a) bs]) a = bs"
proof -
  have r: "array_buffer a < length st"
    "byte_offset a + length bs \<le> length (st ! array_buffer a)"
    using assms by (simp_all add: view_ok_def)
  have "take (length bs) (drop (byte_offset a)
      (overwrite (st ! array_buffer a) (byte_offset a) bs)) = bs"
    using r(2) by (rule take_drop_overwrite)
  then show ?thesis
    using r assms(2) by (simp add: view_ok_def contents_def length_overwrite)
qed

lemma scalar_values_not_Nil: "s \<noteq> [] \<Longrightarrow> scalar_values s \<noteq> []"
  by (cases s rule: scalar_values.cases) simp_all

lemma utf8_bytes_not_Nil: "utf8_bytes c \<noteq> []"
  by (simp add: utf8_bytes_def)

lemma utf8_encode_not_Nil: "s \<noteq> [] \<Longrightarrow> utf8_encode s \<noteq> []"
  using scalar_values_not_Nil [of s]
  by (cases "scalar_values s") (simp_all add: utf8_encode_def utf8_bytes_not_Nil)

lemma Buffer_from_props:
  assumes "Buffer_from e h st s = (a, st', h')"
  shows "view_ok st' a \<and> is_buffer a \<and> contents st' a = utf8_encode s"
proof -
  let ?bs = "utf8_encode s"
  consider "s = []" | "s \<noteq> []" "poolSize div 2 \<le> length ?bs"
    | "s \<noteq> []" "length ?bs < poolSize div 2"
    by (cases "s = []"; cases "length ?bs < poolSize div 2") auto
  then show ?thesis
  proof cases
    case 1
    with assms show ?thesis
      by (auto simp: Buffer_from_def FastBuffer_empty_def view_ok_def contents_def
          utf8_encode_def)
  next
    case 2
    with assms show ?thesis
      by (auto simp: Buffer_from_def view_ok_def contents_def)
  next
    case 3
    obtain b st1 h1 where pt: "pool_take e h st (length ?bs) = (b, st1, h1)"
      by (cases "pool_take e h st (length ?bs)") auto
    from 3 have pos: "0 < length ?bs" using utf8_encode_not_Nil [of s] by simp
    from pool_take_cases [OF pos 3(2) pt] have b: "byte_length b = length ?bs" "is_buffer b"
      "view_ok st1 b"
      by (auto simp: view_ok_def)
    from 3 pt assms have res: "a = b"
      "st' = st1[array_buffer b := overwrite (st1 ! array_buffer b) (byte_offset b) ?bs]"
      by (auto simp: Buffer_from_def)
    from write_view [OF b(3), of ?bs] b(1,2) show ?thesis
      unfolding res by simp
  qed
qed

lemma VSBuffer_fromString_props:
  assumes "VSBuffer_fromString e h st s = (b, st', h')"
  shows "VSBuffer_ok st' b \<and> contents st' (buffer b) = utf8_encode s \<and>
    (hasBuffer e \<longrightarrow> is_buffer (buffer b))"
proof (cases "hasBuffer e")
  case True
  obtain a st1 h1 where bf: "Buffer_from e h st s = (a, st1, h1)"
    by (cases "Buffer_from e h st s") auto
  with True assms have "b = VSBuffer_new a" "st' = st1"
    by (simp_all add: VSBuffer_fromString_def)
  with Buffer_from_props [OF bf] show ?thesis
    by (simp add: VSBuffer_ok_def VSBuffer_inv_def VSBuffer_new_def)
next
  case False
  with assms show ?thesis
    by (auto simp: VSBuffer_fromString_def TextEncoder_encode_def encodeUTF8_def
        VSBuffer_ok_def VSBuffer_inv_def VSBuffer_new_def view_ok_def contents_def
        split: if_splits)
qed

lemma VSBuffer_concat_ok:
  assumes "VSBuffer_concat e h st bs t = Inr (b, st', h')"
  shows "VSBuffer_ok st' b"
proof -
  from assms obtain st1 where
    al: "VSBuffer_alloc e h st (case t of None \<Rightarrow> concat_total bs 0 | Some n \<Rightarrow> n) =
      Inr (b, st1, h')"
    and cp: "concat_copy st1 b bs 0 = Inr st'"
    by (auto simp: VSBuffer_concat_def Let_def split: sum.splits)
  have ok1: "VSBuffer_ok st1 b" using al by (rule VSBuffer_alloc_ok)
  then have "view_ok st1 (buffer b)" by (simp add: VSBuffer_ok_def)
  with cp have "map length st' = map length st1" by (rule concat_copy_lengths)
  then show ?thesis using ok1 by (simp add: VSBuffer_ok_def view_ok_lengths)
qed

text \<open>
  C8. \<open>byteLength\<close> equals the length of the backing view for every handle the
  constructor makes, hence for the results of \<open>alloc\<close>, \<open>wrap\<close>, \<open>fromString\<close>, \<open>concat\<close> and
  \<open>slice\<close>; the results of \<open>alloc\<close>, \<open>fromString\<close> and \<open>concat\<close> also lie inside their
  \<^verbatim>\<open>ArrayBuffer\<close>. A handle is a value that no operation changes, and the operations that
  write, \<open>set\<close> and the integer writers, leave the length of every \<^verbatim>\<open>ArrayBuffer\<close> as it
  was: they rewrite bytes in place.
\<close>

theorem byteLength_invariant:
  "VSBuffer_inv (VSBuffer_new a) \<and>
   (\<forall>b st' h'. VSBuffer_alloc e h st n = Inr (b, st', h') \<longrightarrow>
      VSBuffer_inv b \<and> view_ok st' (buffer b)) \<and>
   VSBuffer_inv (VSBuffer_wrap e a) \<and>
   (\<forall>b st' h'. VSBuffer_fromString e h st s = (b, st', h') \<longrightarrow>
      VSBuffer_inv b \<and> view_ok st' (buffer b)) \<and>
   (\<forall>b st' h'. VSBuffer_concat e h st bs t = Inr (b, st', h') \<longrightarrow>
      VSBuffer_inv b \<and> view_ok st' (buffer b)) \<and>
   VSBuffer_inv (VSBuffer_slice x start end') \<and>
   (\<forall>st'. view_ok st (buffer x) \<and> VSBuffer_set st x y offset = Inr st' \<longrightarrow>
      map length st' = map length st) \<and>
   map length (VSBuffer_writeUInt32BE st x v i) = map length st \<and>
   map length (VSBuffer_writeUInt8 st x v i) = map length st"
proof -
  have al: "\<forall>b st' h'. VSBuffer_alloc e h st n = Inr (b, st', h') \<longrightarrow>
      VSBuffer_inv b \<and> view_ok st' (buffer b)"
    using VSBuffer_alloc_ok [of e h st n] by (simp add: VSBuffer_ok_def)
  have wr: "VSBuffer_inv (VSBuffer_wrap e a)"
    by (simp add: VSBuffer_wrap_def VSBuffer_inv_new)
  have fs: "\<forall>b st' h'. VSBuffer_fromString e h st s = (b, st', h') \<longrightarrow>
      VSBuffer_inv b \<and> view_ok st' (buffer b)"
    using VSBuffer_fromString_props [of e h st s] by (simp add: VSBuffer_ok_def)
  have cc: "\<forall>b st' h'. VSBuffer_concat e h st bs t = Inr (b, st', h') \<longrightarrow>
      VSBuffer_inv b \<and> view_ok st' (buffer b)"
    using VSBuffer_concat_ok [of e h st bs t] by (simp add: VSBuffer_ok_def)
  have sl: "VSBuffer_inv (VSBuffer_slice x start end')"
    by (simp add: VSBuffer_slice_def VSBuffer_inv_new)
  have se: "\<forall>st'. view_ok st (buffer x) \<and> VSBuffer_set st x y offset = Inr st' \<longrightarrow>
      map length st' = map length st"
    unfolding VSBuffer_set_def using Uint8Array_set_lengths by blast
  have w32: "map length (VSBuffer_writeUInt32BE st x v i) = map length st"
    by (simp add: VSBuffer_writeUInt32BE_def writeUInt32BE_def Let_def map_length_set_index)
  have w8: "map length (VSBuffer_writeUInt8 st x v i) = map length st"
    by (simp add: VSBuffer_writeUInt8_def writeUInt8_def map_length_set_index)
  show ?thesis
    using VSBuffer_inv_new al wr fs cc sl se w32 w8 by blast
qed

theorem byteLength_invariant_witness:
  "VSBuffer_alloc bare_env \<lparr>allocPool = 0, poolOffset = 0\<rparr> [[1, 2, 3]] 2 =
     Inr (\<lparr>buffer = \<lparr>array_buffer = 1, byte_offset = 0, byte_length = 2, is_buffer = False\<rparr>,
           byteLength = 2\<rparr>, [[1, 2, 3], [0, 0]], \<lparr>allocPool = 0, poolOffset = 0\<rparr>) \<and>
   VSBuffer_inv
     \<lparr>buffer = \<lparr>array_buffer = 1, byte_offset = 0, byte_length = 2, is_buffer = False\<rparr>,
      byteLength = 2\<rparr> \<and>
   view_ok [[1, 2, 3], [0, 0]]
     \<lparr>array_buffer = 1, byte_offset = 0, byte_length = 2, is_buffer = False\<rparr> \<and>
   VSBuffer_fromString bare_env \<lparr>allocPool = 0, poolOffset = 0\<rparr> [[1, 2, 3]] [0x61] =
     (\<lparr>buffer = \<lparr>array_buffer = 1, byte_offset = 0, byte_length = 1, is_buffer = False\<rparr>,
       byteLength = 1\<rparr>, [[1, 2, 3], [0x61]], \<lparr>allocPool = 0, poolOffset = 0\<rparr>) \<and>
   view_ok [[1, 2, 3], [0x61]]
     \<lparr>array_buffer = 1, byte_offset = 0, byte_length = 1, is_buffer = False\<rparr> \<and>
   VSBuffer_concat bare_env \<lparr>allocPool = 0, poolOffset = 0\<rparr> [[1, 2, 3]]
     [\<lparr>buffer = \<lparr>array_buffer = 0, byte_offset = 0, byte_length = 3, is_buffer = False\<rparr>,
       byteLength = 3\<rparr>] None =
     Inr (\<lparr>buffer = \<lparr>array_buffer = 1, byte_offset = 0, byte_length = 3, is_buffer = False\<rparr>,
           byteLength = 3\<rparr>, [[1, 2, 3], [1, 2, 3]], \<lparr>allocPool = 0, poolOffset = 0\<rparr>) \<and>
   view_ok [[1, 2, 3], [1, 2, 3]]
     \<lparr>array_buffer = 1, byte_offset = 0, byte_length = 3, is_buffer = False\<rparr> \<and>
   view_ok [[1, 2, 3]]
     \<lparr>array_buffer = 0, byte_offset = 0, byte_length = 3, is_buffer = False\<rparr> \<and>
   VSBuffer_set [[1, 2, 3]]
     \<lparr>buffer = \<lparr>array_buffer = 0, byte_offset = 0, byte_length = 3, is_buffer = False\<rparr>,
      byteLength = 3\<rparr>
     \<lparr>buffer = \<lparr>array_buffer = 0, byte_offset = 1, byte_length = 2, is_buffer = False\<rparr>,
      byteLength = 2\<rparr> (Some 0) = Inr [[2, 3, 3]] \<and>
   map length [[2, 3, 3 :: byte]] = map length [[1, 2, 3 :: byte]]"
proof -
  let ?h = "\<lparr>allocPool = 0, poolOffset = 0\<rparr>"
  let ?st = "[[1, 2, 3]] :: store"
  let ?x = "\<lparr>buffer = \<lparr>array_buffer = 0, byte_offset = 0, byte_length = 3, is_buffer = False\<rparr>,
      byteLength = 3\<rparr>"
  let ?y = "\<lparr>buffer = \<lparr>array_buffer = 0, byte_offset = 1, byte_length = 2, is_buffer = False\<rparr>,
      byteLength = 2\<rparr>"
  have al: "VSBuffer_alloc bare_env ?h ?st 2 =
     Inr (\<lparr>buffer = \<lparr>array_buffer = 1, byte_offset = 0, byte_length = 2, is_buffer = False\<rparr>,
           byteLength = 2\<rparr>, [[1, 2, 3], [0, 0]], ?h)"
  proof -
    have zeros: "replicate 2 (0::byte) = [0, 0]" by (simp add: eval_nat_numeral)
    have lim: "\<not> int (kMaxLength bare_env) < 2" by (simp add: kMaxLength_def)
    have "\<not> hasBuffer bare_env" by (simp add: bare_env_def)
    then show ?thesis
      using lim by (simp add: VSBuffer_alloc_def new_Uint8Array_def VSBuffer_new_def zeros)
  qed
  have fs: "VSBuffer_fromString bare_env ?h ?st [0x61] =
     (\<lparr>buffer = \<lparr>array_buffer = 1, byte_offset = 0, byte_length = 1, is_buffer = False\<rparr>,
       byteLength = 1\<rparr>, [[1, 2, 3], [0x61]], ?h)"
    by (simp add: VSBuffer_fromString_def encodeUTF8_def VSBuffer_new_def utf8_encode_def
        utf8_bytes_def lone_unit_def leading_surrogate_def trailing_surrogate_def bare_env_def)
  have cc: "VSBuffer_concat bare_env ?h ?st [?x] None =
     Inr (\<lparr>buffer = \<lparr>array_buffer = 1, byte_offset = 0, byte_length = 3, is_buffer = False\<rparr>,
           byteLength = 3\<rparr>, [[1, 2, 3], [1, 2, 3]], ?h)"
    by (simp add: VSBuffer_concat_def VSBuffer_alloc_def new_Uint8Array_def VSBuffer_new_def
        VSBuffer_set_def Uint8Array_set_def overwrite_def contents_def bare_env_def
        kMaxLength_def)
  have okx: "view_ok ?st (buffer ?x)" by (simp add: view_ok_def)
  have se: "VSBuffer_set ?st ?x ?y (Some 0) = Inr [[2, 3, 3]]"
    by (simp add: VSBuffer_set_def Uint8Array_set_def overwrite_def contents_def)
  note inv = byteLength_invariant [of _ bare_env ?h ?st 2 "[0x61]" "[?x]" None ?x _ _ ?y "Some 0"]
  show ?thesis
    using inv al fs cc okx se by auto
qed

section \<open>Draining a stream\<close>

lemma consume_chunks:
  "foldl (consume_event reducer) (chunks, p) (map Data cs) = (chunks @ cs, p)"
  by (induction cs arbitrary: chunks) simp_all

lemma consume_settled:
  "p \<noteq> Pending \<Longrightarrow> snd (foldl (consume_event reducer) (chunks, p) evs) = p"
proof (induction evs arbitrary: chunks)
  case Nil
  then show ?case by simp
next
  case (Cons ev evs)
  then show ?case by (cases ev; cases p) simp_all
qed

lemma consumeStream_error:
  "consumeStream (map Data cs @ Error err # rest) reducer = Rejected err"
  by (simp add: consumeStream_def consume_chunks consume_settled)

lemma consumeStream_end:
  "consumeStream (map Data cs @ End # rest) reducer = Resolved (reducer cs)"
  by (simp add: consumeStream_def consume_chunks consume_settled)

lemma consume_Resolved:
  assumes "snd (foldl (consume_event reducer) (chunks, Pending) evs) = Resolved r"
  shows "\<exists>cs rest. evs = map Data cs @ End # rest \<and> r = reducer (chunks @ cs)"
  using assms
proof (induction evs arbitrary: chunks)
  case Nil
  then show ?case by simp
next
  case (Cons ev evs)
  show ?case
  proof (cases ev)
    case (Data d)
    with Cons.prems have
      "snd (foldl (consume_event reducer) (chunks @ [d], Pending) evs) = Resolved r"
      by simp
    from Cons.IH [OF this] obtain cs rest where
      "evs = map Data cs @ End # rest" "r = reducer ((chunks @ [d]) @ cs)"
      by blast
    then have "ev # evs = map Data (d # cs) @ End # rest \<and> r = reducer (chunks @ d # cs)"
      using Data by simp
    then show ?thesis by (intro exI)
  next
    case End
    with Cons.prems have "r = reducer chunks"
      by (simp add: consume_settled)
    then have "ev # evs = map Data [] @ End # evs \<and> r = reducer (chunks @ [])"
      using End by simp
    then show ?thesis by (intro exI)
  next
    case (Error err)
    with Cons.prems show ?thesis
      by (simp add: consume_settled)
  qed
qed

lemma consumeStream_Resolved:
  assumes "consumeStream evs reducer = Resolved r"
  shows "\<exists>cs rest. evs = map Data cs @ End # rest \<and> r = reducer cs"
  using consume_Resolved [of reducer "[]" evs r] assms
  by (simp add: consumeStream_def)

text \<open>
  C9. A stream that signals an error before any end signal, after any number of chunks,
  leaves the promise of \<open>streamToBuffer\<close> rejected with that error, whatever it signals
  afterwards: a rejected promise carries no buffer. The promise is resolved only for a
  stream whose first signal other than a chunk is the end signal, and then with
  \<open>concat\<close> of the chunks delivered before it, which is the buffer of their bytes in
  order where \<open>concat\<close> gives that: for chunks that do not reach into the unused part of
  the host's pool and add up to no more than the host's limit.
\<close>

theorem streamToBuffer_rejects:
  "streamToBuffer e h st (map Data chunks @ Error err # rest) = Rejected err \<and>
   (\<forall>r. streamToBuffer e h st stream = Resolved r \<longrightarrow>
      (\<exists>cs rest'. stream = map Data cs @ End # rest' \<and> r = VSBuffer_concat e h st cs None)) \<and>
   streamToBuffer e h st (map Data chunks @ End # rest) =
     Resolved (VSBuffer_concat e h st chunks None) \<and>
   ((\<forall>b \<in> set chunks. VSBuffer_ok st b \<and> off_pool h (buffer b)) \<and>
    sum_list (map byteLength chunks) \<le> kMaxLength e \<longrightarrow>
      (\<exists>ret st' h'.
         streamToBuffer e h st (map Data chunks @ End # rest) = Resolved (Inr (ret, st', h')) \<and>
         contents st' (buffer ret) = concat (map (\<lambda>b. contents st (buffer b)) chunks)))"
proof -
  have rej: "streamToBuffer e h st (map Data chunks @ Error err # rest) = Rejected err"
    by (simp add: streamToBuffer_def consumeStream_error)
  have only: "\<forall>r. streamToBuffer e h st stream = Resolved r \<longrightarrow>
      (\<exists>cs rest'. stream = map Data cs @ End # rest' \<and> r = VSBuffer_concat e h st cs None)"
    unfolding streamToBuffer_def using consumeStream_Resolved by fastforce
  have fin: "streamToBuffer e h st (map Data chunks @ End # rest) =
      Resolved (VSBuffer_concat e h st chunks None)"
    by (simp add: streamToBuffer_def consumeStream_end)
  have res: "\<exists>ret st' h'.
      streamToBuffer e h st (map Data chunks @ End # rest) = Resolved (Inr (ret, st', h')) \<and>
      contents st' (buffer ret) = concat (map (\<lambda>b. contents st (buffer b)) chunks)"
    if ok: "\<forall>b \<in> set chunks. VSBuffer_ok st b \<and> off_pool h (buffer b)"
      and lim: "sum_list (map byteLength chunks) \<le> kMaxLength e"
    using VSBuffer_concat_returns [OF ok lim] unfolding fin by auto
  show ?thesis using rej only fin res by blast
qed

theorem streamToBuffer_rejects_witness:
  "streamToBuffer node_env \<lparr>allocPool = 0, poolOffset = 8\<rparr>
     [[0x61, 0x62, 0, 0, 0, 0, 0, 0] @ replicate 8184 0]
     (map Data
        [\<lparr>buffer = \<lparr>array_buffer = 0, byte_offset = 0, byte_length = 2, is_buffer = True\<rparr>,
          byteLength = 2\<rparr>] @ Error ''boom'' # [End]) = Rejected ''boom'' \<and>
   VSBuffer_ok [[0x61, 0x62, 0, 0, 0, 0, 0, 0] @ replicate 8184 0]
     \<lparr>buffer = \<lparr>array_buffer = 0, byte_offset = 0, byte_length = 2, is_buffer = True\<rparr>,
      byteLength = 2\<rparr> \<and>
   off_pool \<lparr>allocPool = 0, poolOffset = 8\<rparr>
     \<lparr>array_buffer = 0, byte_offset = 0, byte_length = 2, is_buffer = True\<rparr> \<and>
   (\<exists>ret st' h'.
      streamToBuffer node_env \<lparr>allocPool = 0, poolOffset = 8\<rparr>
        [[0x61, 0x62, 0, 0, 0, 0, 0, 0] @ replicate 8184 0]
        (map Data
           [\<lparr>buffer = \<lparr>array_buffer = 0, byte_offset = 0, byte_length = 2, is_buffer = True\<rparr>,
             byteLength = 2\<rparr>] @ End # [Error ''late'']) = Resolved (Inr (ret, st', h')) \<and>
      contents st' (buffer ret) = [0x61, 0x62])"
proof -
  let ?h = "\<lparr>allocPool = 0, poolOffset = 8\<rparr>"
  let ?st = "[[0x61, 0x62, 0, 0, 0, 0, 0, 0] @ replicate 8184 0] :: store"
  let ?b = "\<lparr>buffer = \<lparr>array_buffer = 0, byte_offset = 0, byte_length = 2, is_buffer = True\<rparr>,
      byteLength = 2\<rparr>"
  have ok: "VSBuffer_ok ?st ?b"
    by (simp add: VSBuffer_ok_def VSBuffer_inv_def view_ok_def)
  have off: "off_pool ?h (buffer ?b)" by (simp add: off_pool_def)
  have all: "\<forall>b \<in> set [?b]. VSBuffer_ok ?st b \<and> off_pool ?h (buffer b)"
    using ok off by simp
  have lim: "sum_list (map byteLength [?b]) \<le> kMaxLength node_env"
    by (simp add: kMaxLength_def)
  have bytes: "concat (map (\<lambda>b. contents ?st (buffer b)) [?b]) = [0x61, 0x62]"
    by (simp add: contents_def)
  note th1 = streamToBuffer_rejects [of node_env ?h ?st "[?b]" "''boom''" "[End]"]
  note th2 = streamToBuffer_rejects [of node_env ?h ?st "[?b]" "''boom''" "[Error ''late'']"]
  from th1 have "streamToBuffer node_env ?h ?st (map Data [?b] @ Error ''boom'' # [End]) =
      Rejected ''boom''"
    by blast
  moreover from th2 all lim have "\<exists>ret st' h'.
      streamToBuffer node_env ?h ?st (map Data [?b] @ End # [Error ''late'']) =
        Resolved (Inr (ret, st', h')) \<and>
      contents st' (buffer ret) = concat (map (\<lambda>b. contents ?st (buffer b)) [?b])"
    by blast
  ultimately show ?thesis using ok off unfolding bytes by simp
qed

section \<open>Strings to bytes and back\<close>

text \<open>The decoder's steps, one lemma for each kind of byte it can meet.\<close>

lemma run_ascii:
  "b \<le> 0x7F \<Longrightarrow> utf8_run utf8_start (b # bs) = b # utf8_run utf8_start bs"
  by (simp add: utf8_start_def)

lemma run_lead2:
  "0xC2 \<le> b \<Longrightarrow> b \<le> 0xDF \<Longrightarrow> utf8_run utf8_start (b # bs) =
     utf8_run \<lparr>code_point = b mod 0x20, bytes_seen = 0, bytes_needed = 1,
               lower_boundary = 0x80, upper_boundary = 0xBF\<rparr> bs"
  by (simp add: utf8_start_def)

lemma run_lead3:
  "0xE0 \<le> b \<Longrightarrow> b \<le> 0xEF \<Longrightarrow> utf8_run utf8_start (b # bs) =
     utf8_run \<lparr>code_point = b mod 0x10, bytes_seen = 0, bytes_needed = 2,
               lower_boundary = (if b = 0xE0 then 0xA0 else 0x80),
               upper_boundary = (if b = 0xED then 0x9F else 0xBF)\<rparr> bs"
  by (simp add: utf8_start_def)

lemma run_lead4:
  "0xF0 \<le> b \<Longrightarrow> b \<le> 0xF4 \<Longrightarrow> utf8_run utf8_start (b # bs) =
     utf8_run \<lparr>code_point = b mod 0x08, bytes_seen = 0, bytes_needed = 3,
               lower_boundary = (if b = 0xF0 then 0x90 else 0x80),
               upper_boundary = (if b = 0xF4 then 0x8F else 0xBF)\<rparr> bs"
  by (simp add: utf8_start_def)

lemma run_cont:
  "n \<noteq> 0 \<Longrightarrow> lo \<le> b \<Longrightarrow> b \<le> hi \<Longrightarrow>
   utf8_run \<lparr>code_point = cp, bytes_seen = k, bytes_needed = n,
             lower_boundary = lo, upper_boundary = hi\<rparr> (b # bs) =
     (if Suc k \<noteq> n
      then utf8_run \<lparr>code_point = cp * 0x40 + b mod 0x40, bytes_seen = Suc k, bytes_needed = n,
                     lower_boundary = 0x80, upper_boundary = 0xBF\<rparr> bs
      else (cp * 0x40 + b mod 0x40) # utf8_run utf8_start bs)"
  by (simp add: Let_def)

declare utf8_run.simps [simp del]

lemma unat_byte: "n < 256 \<Longrightarrow> unat (of_nat n :: byte) = n"
  by (simp add: unat_of_nat)

lemma mod_part: "r < m \<Longrightarrow> (k * m + r) mod m = (r::nat)"
  by simp

lemma div_part: "r < m \<Longrightarrow> (k * m + r) div m = (k::nat)"
  by simp

lemma cont_mod: "r < 0x40 \<Longrightarrow> (0x80 + r) mod 0x40 = (r::nat)"
  using mod_part [of r "0x40" 2] by simp

lemma decode1:
  assumes "c < 0x80"
  shows "utf8_run utf8_start (map unat (utf8_bytes c) @ rest) = c # utf8_run utf8_start rest"
  using assms by (simp add: utf8_bytes_def unat_byte run_ascii)

lemma decode2:
  assumes "0x80 \<le> c" "c < 0x800"
  shows "utf8_run utf8_start (map unat (utf8_bytes c) @ rest) = c # utf8_run utf8_start rest"
proof -
  define q where "q = c div 0x40"
  define r where "r = c mod 0x40"
  have c: "c = q * 0x40 + r" by (simp add: q_def r_def)
  have r: "r < 0x40" by (simp add: r_def)
  have q: "2 \<le> q" "q < 0x20" using assms c r by linarith+
  have b0: "unat (of_nat (0xC0 + q) :: byte) = 0xC0 + q" using q by (intro unat_byte) simp
  have b1: "unat (of_nat (0x80 + r) :: byte) = 0x80 + r" using r by (intro unat_byte) simp
  have "utf8_bytes c = [of_nat (0xC0 + q), of_nat (0x80 + r)]"
    using assms unfolding utf8_bytes_def q_def r_def by (simp del: of_nat_add)
  then have bytes: "map unat (utf8_bytes c) = [0xC0 + q, 0x80 + r]"
    by (simp only: list.map b0 b1)
  have m0: "(0xC0 + q) mod 0x20 = q" using mod_part [of q "0x20" 6] q by simp
  have m1: "(0x80 + r) mod 0x40 = r" using r by (rule cont_mod)
  have "utf8_run utf8_start ([0xC0 + q, 0x80 + r] @ rest) =
      utf8_run \<lparr>code_point = q, bytes_seen = 0, bytes_needed = 1,
               lower_boundary = 0x80, upper_boundary = 0xBF\<rparr> ((0x80 + r) # rest)"
    using q by (simp add: run_lead2 m0)
  also have "\<dots> = (q * 0x40 + r) # utf8_run utf8_start rest"
    using r by (subst run_cont) (simp_all add: m1)
  finally show ?thesis unfolding bytes c [symmetric] .
qed


lemma decode3:
  assumes "0x800 \<le> c" "c < 0x10000" "\<not> (0xD800 \<le> c \<and> c \<le> 0xDFFF)"
  shows "utf8_run utf8_start (map unat (utf8_bytes c) @ rest) = c # utf8_run utf8_start rest"
proof -
  define r where "r = c mod 0x40"
  define q where "q = c div 0x40"
  define r1 where "r1 = q mod 0x40"
  define q1 where "q1 = q div 0x40"
  have c: "c = q * 0x40 + r" by (simp add: q_def r_def)
  have q: "q = q1 * 0x40 + r1" by (simp add: q1_def r1_def)
  have r: "r < 0x40" "r1 < 0x40" by (simp_all add: r_def r1_def)
  have q1: "q1 < 0x10" using assms c q r by linarith
  have d1: "c div 0x1000 = q1"
    using div_mult2_eq [of c "0x40" "0x40"] by (simp add: q1_def q_def)
  have d2: "c div 0x40 mod 0x40 = r1" by (simp add: r1_def q_def)
  have b0: "unat (of_nat (0xE0 + q1) :: byte) = 0xE0 + q1" using q1 by (intro unat_byte) simp
  have b1: "unat (of_nat (0x80 + r1) :: byte) = 0x80 + r1" using r by (intro unat_byte) simp
  have b2: "unat (of_nat (0x80 + r) :: byte) = 0x80 + r" using r by (intro unat_byte) simp
  have "utf8_bytes c = [of_nat (0xE0 + q1), of_nat (0x80 + r1), of_nat (0x80 + r)]"
    using assms unfolding utf8_bytes_def d1 d2 r_def by (simp del: of_nat_add)
  then have bytes: "map unat (utf8_bytes c) = [0xE0 + q1, 0x80 + r1, 0x80 + r]"
    by (simp only: list.map b0 b1 b2)
  have m0: "(0xE0 + q1) mod 0x10 = q1" using mod_part [of q1 "0x10" 14] q1 by simp
  have lo: "(if 0xE0 + q1 = 0xE0 then 0xA0 else 0x80) \<le> 0x80 + r1"
    using assms c q r by (simp split: if_splits; linarith)
  have hi: "0x80 + r1 \<le> (if 0xE0 + q1 = 0xED then 0x9F else 0xBF)"
    using assms c q r by (simp split: if_splits; linarith)
  have "utf8_run utf8_start ([0xE0 + q1, 0x80 + r1, 0x80 + r] @ rest) =
      utf8_run \<lparr>code_point = q1, bytes_seen = 0, bytes_needed = 2,
               lower_boundary = (if 0xE0 + q1 = 0xE0 then 0xA0 else 0x80),
               upper_boundary = (if 0xE0 + q1 = 0xED then 0x9F else 0xBF)\<rparr>
        ((0x80 + r1) # (0x80 + r) # rest)"
    using q1 m0 by (simp add: run_lead3)
  also have "\<dots> =
      utf8_run \<lparr>code_point = q1 * 0x40 + r1, bytes_seen = Suc 0, bytes_needed = 2,
               lower_boundary = 0x80, upper_boundary = 0xBF\<rparr> ((0x80 + r) # rest)"
    using lo hi r by (subst run_cont) (simp_all add: cont_mod)
  also have "\<dots> = ((q1 * 0x40 + r1) * 0x40 + r) # utf8_run utf8_start rest"
    using r by (subst run_cont) (simp_all add: cont_mod)
  finally show ?thesis unfolding bytes using c q by simp
qed

lemma decode4:
  assumes "0x10000 \<le> c" "c < 0x110000"
  shows "utf8_run utf8_start (map unat (utf8_bytes c) @ rest) = c # utf8_run utf8_start rest"
proof -
  define r where "r = c mod 0x40"
  define q where "q = c div 0x40"
  define r1 where "r1 = q mod 0x40"
  define q1 where "q1 = q div 0x40"
  define r2 where "r2 = q1 mod 0x40"
  define q2 where "q2 = q1 div 0x40"
  have c: "c = q * 0x40 + r" by (simp add: q_def r_def)
  have q: "q = q1 * 0x40 + r1" by (simp add: q1_def r1_def)
  have qq: "q1 = q2 * 0x40 + r2" by (simp add: q2_def r2_def)
  have r: "r < 0x40" "r1 < 0x40" "r2 < 0x40" by (simp_all add: r_def r1_def r2_def)
  have q2: "q2 < 5" using assms c q qq r by linarith
  have d0: "c div 0x1000 = q1"
    using div_mult2_eq [of c "0x40" "0x40"] by (simp add: q1_def q_def)
  have d1: "c div 0x40000 = q2"
    using div_mult2_eq [of c "0x1000" "0x40"] by (simp add: q2_def d0)
  have d2: "c div 0x1000 mod 0x40 = r2" by (simp add: d0 r2_def)
  have d3: "c div 0x40 mod 0x40 = r1" by (simp add: r1_def q_def)
  have b0: "unat (of_nat (0xF0 + q2) :: byte) = 0xF0 + q2" using q2 by (intro unat_byte) simp
  have b1: "unat (of_nat (0x80 + r2) :: byte) = 0x80 + r2" using r by (intro unat_byte) simp
  have b2: "unat (of_nat (0x80 + r1) :: byte) = 0x80 + r1" using r by (intro unat_byte) simp
  have b3: "unat (of_nat (0x80 + r) :: byte) = 0x80 + r" using r by (intro unat_byte) simp
  have "utf8_bytes c =
      [of_nat (0xF0 + q2), of_nat (0x80 + r2), of_nat (0x80 + r1), of_nat (0x80 + r)]"
    using assms unfolding utf8_bytes_def d1 d2 d3 r_def by (simp del: of_nat_add)
  then have bytes: "map unat (utf8_bytes c) = [0xF0 + q2, 0x80 + r2, 0x80 + r1, 0x80 + r]"
    by (simp only: list.map b0 b1 b2 b3)
  have m0: "(0xF0 + q2) mod 0x08 = q2" using mod_part [of q2 "0x08" 30] q2 by simp
  have lo: "(if 0xF0 + q2 = 0xF0 then 0x90 else 0x80) \<le> 0x80 + r2"
    using assms c q qq r by (simp split: if_splits; linarith)
  have hi: "0x80 + r2 \<le> (if 0xF0 + q2 = 0xF4 then 0x8F else 0xBF)"
    using assms c q qq r by (simp split: if_splits; linarith)
  have "utf8_run utf8_start ([0xF0 + q2, 0x80 + r2, 0x80 + r1, 0x80 + r] @ rest) =
      utf8_run \<lparr>code_point = q2, bytes_seen = 0, bytes_needed = 3,
               lower_boundary = (if 0xF0 + q2 = 0xF0 then 0x90 else 0x80),
               upper_boundary = (if 0xF0 + q2 = 0xF4 then 0x8F else 0xBF)\<rparr>
        ((0x80 + r2) # (0x80 + r1) # (0x80 + r) # rest)"
    using q2 m0 by (simp add: run_lead4)
  also have "\<dots> =
      utf8_run \<lparr>code_point = q2 * 0x40 + r2, bytes_seen = Suc 0, bytes_needed = 3,
               lower_boundary = 0x80, upper_boundary = 0xBF\<rparr>
        ((0x80 + r1) # (0x80 + r) # rest)"
    using lo hi r by (subst run_cont) (simp_all add: cont_mod)
  also have "\<dots> =
      utf8_run \<lparr>code_point = (q2 * 0x40 + r2) * 0x40 + r1, bytes_seen = Suc (Suc 0),
               bytes_needed = 3, lower_boundary = 0x80, upper_boundary = 0xBF\<rparr>
        ((0x80 + r) # rest)"
    using r by (subst run_cont) (simp_all add: cont_mod)
  also have "\<dots> = (((q2 * 0x40 + r2) * 0x40 + r1) * 0x40 + r) # utf8_run utf8_start rest"
    using r by (subst run_cont) (simp_all add: cont_mod)
  finally show ?thesis unfolding bytes using c q qq by simp
qed

lemma decode_scalar:
  assumes "scalar c"
  shows "utf8_run utf8_start (map unat (utf8_bytes c) @ rest) = c # utf8_run utf8_start rest"
proof -
  consider "c < 0x80" | "0x80 \<le> c" "c < 0x800" | "0x800 \<le> c" "c < 0x10000"
    | "0x10000 \<le> c" by linarith
  then show ?thesis
  proof cases
    case 1 then show ?thesis by (rule decode1)
  next
    case 2 then show ?thesis by (rule decode2)
  next
    case 3 with assms show ?thesis by (intro decode3) (simp_all add: scalar_def)
  next
    case 4 with assms show ?thesis by (intro decode4) (simp_all add: scalar_def)
  qed
qed

lemma decode_encode:
  assumes "\<forall>c \<in> set cs. scalar c"
  shows "utf8_run utf8_start (map unat (concat (map utf8_bytes cs))) = cs"
  using assms
proof (induction cs)
  case Nil
  then show ?case by (simp add: utf8_run.simps utf8_start_def)
next
  case (Cons c cs)
  then show ?case by (simp add: decode_scalar)
qed

text \<open>The code units of the scalar values of a well-formed string are the string.\<close>

lemma leading_unat: "leading_surrogate u \<longleftrightarrow> 0xD800 \<le> unat u \<and> unat u \<le> 0xDBFF"
  by (simp add: leading_surrogate_def word_le_nat_alt)

lemma trailing_unat: "trailing_surrogate u \<longleftrightarrow> 0xDC00 \<le> unat u \<and> unat u \<le> 0xDFFF"
  by (simp add: trailing_surrogate_def word_le_nat_alt)

lemma unat_unit: "unat (u :: 16 word) < 0x10000"
  using unsigned_less [of u, where ?'a = nat] by simp

lemma scalar_lone_unit: "scalar (lone_unit u)"
  using unat_unit [of u]
  by (auto simp: lone_unit_def scalar_def leading_unat trailing_unat)

lemma scalar_pair:
  assumes "leading_surrogate u" "trailing_surrogate v"
  shows "scalar (0x10000 + (unat u - 0xD800) * 0x400 + (unat v - 0xDC00))"
  using assms unfolding scalar_def leading_unat trailing_unat by linarith

lemma scalar_values_scalar: "\<forall>c \<in> set (scalar_values s). scalar c"
  by (induction s rule: scalar_values.induct) (simp_all add: scalar_lone_unit scalar_pair)

lemma utf16_lone:
  assumes "\<not> leading_surrogate u" "\<not> trailing_surrogate u"
  shows "utf16_units (lone_unit u) = [u]"
  using assms unat_unit [of u] by (simp add: utf16_units_def lone_unit_def)

lemma utf16_pair:
  assumes "leading_surrogate u" "trailing_surrogate v"
  shows "utf16_units (0x10000 + (unat u - 0xD800) * 0x400 + (unat v - 0xDC00)) = [u, v]"
proof -
  define h where "h = unat u - 0xD800"
  define l where "l = unat v - 0xDC00"
  have h: "unat u = 0xD800 + h" and l: "unat v = 0xDC00 + l" "l < 0x400"
    using assms unfolding leading_unat trailing_unat h_def l_def by linarith+
  have "(h * 0x400 + l) div 0x400 = h" "(h * 0x400 + l) mod 0x400 = l"
    using l(2) by (simp_all add: div_part mod_part)
  then have "utf16_units (0x10000 + h * 0x400 + l) = [of_nat (0xD800 + h), of_nat (0xDC00 + l)]"
    by (simp add: utf16_units_def add.assoc del: of_nat_add)
  also have "\<dots> = [of_nat (unat u), of_nat (unat v)]" by (simp only: h l)
  finally show ?thesis by (simp add: h_def l_def)
qed

lemma utf16_scalar_values:
  "well_formed s \<Longrightarrow> concat (map utf16_units (scalar_values s)) = s"
proof (induction s rule: well_formed.induct)
  case 1
  then show ?case by simp
next
  case (2 u)
  then show ?case by (simp add: utf16_lone)
next
  case (3 u v us)
  show ?case
  proof (cases "leading_surrogate u")
    case True
    with "3.prems" have "trailing_surrogate v" "well_formed us" by simp_all
    with True "3.IH"(1) show ?thesis by (simp add: utf16_pair)
  next
    case False
    with "3.prems" have "\<not> trailing_surrogate u" "well_formed (v # us)" by simp_all
    with False "3.IH"(2) show ?thesis by (simp add: utf16_lone)
  qed
qed


lemma utf8_roundtrip: "utf8_code_points (utf8_encode s) = scalar_values s"
  unfolding utf8_code_points_def utf8_encode_def
  using scalar_values_scalar [of s] by (rule decode_encode)

lemma utf8_decode_encode: "well_formed s \<Longrightarrow> utf8_decode (utf8_encode s) = s"
  by (simp add: utf8_decode_def utf8_roundtrip utf16_scalar_values)

text \<open>
  What \<open>toString\<close> reads from the buffer that \<open>fromString\<close> made: the string's scalar
  values, without a leading \<open>U+FEFF\<close> on the \<^verbatim>\<open>TextDecoder\<close> branch.
\<close>

lemma toString_fromString:
  "VSBuffer_toString e (fst (snd (VSBuffer_fromString e h st s)))
     (fst (VSBuffer_fromString e h st s)) =
   concat (map utf16_units
     (if \<not> hasBuffer e \<and> hasTextDecoder e
      then (case scalar_values s of [] \<Rightarrow> [] | c # cs \<Rightarrow> if c = 0xFEFF then cs else c # cs)
      else scalar_values s))"
proof -
  obtain b st' h' where fs: "VSBuffer_fromString e h st s = (b, st', h')"
    by (cases "VSBuffer_fromString e h st s") auto
  from VSBuffer_fromString_props [OF fs] have
    c: "contents st' (buffer b) = utf8_encode s" and buf: "hasBuffer e \<longrightarrow> is_buffer (buffer b)"
    by simp_all
  show ?thesis
    unfolding fs using buf
    by (simp add: VSBuffer_toString_def Uint8Array_toString_def TextDecoder_decode_def
        decodeUTF8_def utf8_decode_def c utf8_roundtrip)
qed




text \<open>
  The branches of \<open>toString\<close> do not agree on a leading \<open>U+FEFF\<close>: the \<^verbatim>\<open>Buffer\<close> branch and
  the manual branch keep it, the \<^verbatim>\<open>TextDecoder\<close> branch drops it. The string \<open>U+FEFF\<close>, \<open>a\<close>
  comes back whole under Node and on a host without either facility, and as \<open>a\<close> in a
  browser.
\<close>

lemma toString_byte_order_mark:
  "VSBuffer_toString node_env
     (fst (snd (VSBuffer_fromString node_env \<lparr>allocPool = 0, poolOffset = 0\<rparr>
        [replicate 8192 0] [0xFEFF, 0x61])))
     (fst (VSBuffer_fromString node_env \<lparr>allocPool = 0, poolOffset = 0\<rparr>
        [replicate 8192 0] [0xFEFF, 0x61])) = [0xFEFF, 0x61] \<and>
   VSBuffer_toString bare_env
     (fst (snd (VSBuffer_fromString bare_env \<lparr>allocPool = 0, poolOffset = 0\<rparr>
        [replicate 8192 0] [0xFEFF, 0x61])))
     (fst (VSBuffer_fromString bare_env \<lparr>allocPool = 0, poolOffset = 0\<rparr>
        [replicate 8192 0] [0xFEFF, 0x61])) = [0xFEFF, 0x61] \<and>
   VSBuffer_toString browser_env
     (fst (snd (VSBuffer_fromString browser_env \<lparr>allocPool = 0, poolOffset = 0\<rparr>
        [replicate 8192 0] [0xFEFF, 0x61])))
     (fst (VSBuffer_fromString browser_env \<lparr>allocPool = 0, poolOffset = 0\<rparr>
        [replicate 8192 0] [0xFEFF, 0x61])) = [0x61]"
proof -
  have bom: "scalar_values [0xFEFF, 0x61] = [0xFEFF, 0x61]"
    by (simp add: lone_unit_def leading_surrogate_def trailing_surrogate_def)
  have u: "utf16_units 0xFEFF = [0xFEFF]" "utf16_units 0x61 = [0x61]"
    by (simp_all add: utf16_units_def)
  show ?thesis
    unfolding toString_fromString bom
    by (simp add: u node_env_def bare_env_def browser_env_def)
qed


end
